theory Spec2Isabelle
  imports Main "HOL-Library.Word" "HOL-Library.Monad_Syntax"
begin

unbundle bit_operations_syntax

section \<open>The PC: ports, frame buffer and driver globals\<close>

type_synonym u8 = "8 word"
type_synonym u16 = "16 word"
type_synonym u32 = "32 word"

text \<open>
  Port-mapped I/O of the x86 build (io.h).  An \<open>inb\<close> returns whatever the hardware
  answers, so the answers of all future \<open>inb\<close> instructions are a queue \<open>port_in\<close>
  owned by the environment; the program consumes them in program order.  Every port
  access is appended to \<open>port_log\<close>.  An exhausted queue means the hardware has not
  answered yet: a function that needs another answer yields \<open>None\<close> (it has not
  returned).
\<close>

datatype io_event = In u16 u8 | Out u16 u8

record pc =
  cursor_row :: int
  cursor_col :: int
  current_color :: u8
  VGA_MEM :: "u16 list"
  port_in :: "u8 list"
  port_log :: "io_event list"

definition inb :: "u16 \<Rightarrow> pc \<Rightarrow> (u8 \<times> pc) option" where
  "inb port s =
     (case port_in s of
        [] \<Rightarrow> None
      | v # vs \<Rightarrow> Some (v, s\<lparr>port_in := vs, port_log := port_log s @ [In port v]\<rparr>))"

definition outb :: "u16 \<Rightarrow> u8 \<Rightarrow> pc \<Rightarrow> pc" where
  "outb port val s = s\<lparr>port_log := port_log s @ [Out port val]\<rparr>"

section \<open>sound.c: timing on PIT channel 0\<close>

text \<open>\<open>pit0_read\<close>: latch command, then low byte and high byte of the counter.\<close>

definition pit0_read :: "pc \<Rightarrow> (u16 \<times> pc) option" where
  "pit0_read s =
     (case inb 0x40 (outb 0x43 0x00 s) of
        None \<Rightarrow> None
      | Some (lo, s1) \<Rightarrow>
          (case inb 0x40 s1 of
             None \<Rightarrow> None
           | Some (hi, s2) \<Rightarrow> Some (push_bit 8 (ucast hi) OR ucast lo, s2)))"

text \<open>
  The expression assigned to \<open>delta\<close> in the loop of \<open>delay_ms\<close>.  In the first
  branch both operands are promoted to \<open>int\<close> and the difference is not negative; in
  the second the sum is computed in \<open>unsigned int\<close> (32 bits) and cast to 16 bits.
\<close>

definition delay_delta :: "u16 \<Rightarrow> u16 \<Rightarrow> u16" where
  "delay_delta prev cur =
     (if prev \<ge> cur then prev - cur
      else ucast ((ucast prev :: u32) + (65536 - (ucast cur :: u32))))"

text \<open>
  The \<open>while (elapsed < ticks_needed)\<close> loop.  Every iteration consumes two port
  answers, so the recursion ends when the loop condition fails or the queue is empty.
\<close>

function delay_loop :: "u32 \<Rightarrow> u16 \<Rightarrow> u32 \<Rightarrow> pc \<Rightarrow> pc option" where
  "delay_loop ticks_needed prev elapsed s =
     (if elapsed < ticks_needed then
        (case pit0_read s of
           None \<Rightarrow> None
         | Some (cur, s') \<Rightarrow>
             delay_loop ticks_needed cur (elapsed + ucast (delay_delta prev cur)) s')
      else Some s)"
  by pat_completeness auto
termination
  by (relation "measure (\<lambda>(t, p, e, s). length (port_in s))")
     (auto simp: pit0_read_def inb_def outb_def split: list.splits)

declare delay_loop.simps [simp del]

definition delay_ms :: "u32 \<Rightarrow> pc \<Rightarrow> pc option" where
  "delay_ms ms s =
     (let ticks_needed = ms * 1193 in
      case pit0_read s of
        None \<Rightarrow> None
      | Some (prev, s1) \<Rightarrow> delay_loop ticks_needed prev 0 s1)"

section \<open>sound.c: the PC speaker\<close>

text \<open>\<open>pit_set_divisor\<close>: control word, then divisor low byte, then high byte.\<close>

definition pit_set_divisor :: "u16 \<Rightarrow> pc \<Rightarrow> pc" where
  "pit_set_divisor divisor s =
     outb 0x42 (ucast (drop_bit 8 divisor))
       (outb 0x42 (ucast (divisor AND 0xFF))
         (outb 0x43 0xB6 s))"

definition sound_stop :: "pc \<Rightarrow> pc option" where
  "sound_stop s =
     (case inb 0x61 s of
        None \<Rightarrow> None
      | Some (tmp, s1) \<Rightarrow> Some (outb 0x61 (tmp AND NOT 0x03) s1))"

definition PIT_BASE_FREQ :: u32 where
  "PIT_BASE_FREQ = 1193180"

definition sound_play :: "u32 \<Rightarrow> u32 \<Rightarrow> pc \<Rightarrow> pc option" where
  "sound_play freq_hz duration_ms s =
     (if freq_hz = 0 then
        do { s1 \<leftarrow> sound_stop s; delay_ms duration_ms s1 }
      else
        (let divisor = (ucast (PIT_BASE_FREQ div freq_hz) :: u16);
             s1 = pit_set_divisor divisor s
         in case inb 0x61 s1 of
              None \<Rightarrow> None
            | Some (tmp, s2) \<Rightarrow>
                do { s3 \<leftarrow> delay_ms duration_ms (outb 0x61 (tmp OR 0x03) s2);
                     sound_stop s3 }))"

text \<open>
  C strings are modelled by the list of their characters before the terminating NUL;
  the end of the list stands for the terminator.  The table \<open>notes\<close> without its
  \<open>{0, 0}\<close> sentinel:
\<close>

definition notes_table :: "(string \<times> u32) list" where
  "notes_table = [(''do'', 262), (''re'', 294), (''mi'', 330), (''fa'', 349),
            (''sol'', 392), (''la'', 440), (''si'', 494)]"

fun str_eq_sound :: "string \<Rightarrow> string \<Rightarrow> bool" where
  "str_eq_sound (a # as) (b # bs) = (if a \<noteq> b then False else str_eq_sound as bs)"
| "str_eq_sound [] [] = True"
| "str_eq_sound [] (b # bs) = False"
| "str_eq_sound (a # as) [] = False"

text \<open>The \<open>for\<close> loop of \<open>sound_note\<close> over the remaining table entries.\<close>

fun sound_note_loop :: "(string \<times> u32) list \<Rightarrow> string \<Rightarrow> pc \<Rightarrow> pc option" where
  "sound_note_loop [] name s = Some s"
| "sound_note_loop ((n, freq) # rest) name s =
     (if str_eq_sound name n then sound_play freq 450 s
      else sound_note_loop rest name s)"

definition sound_note :: "string \<Rightarrow> pc \<Rightarrow> pc option" where
  "sound_note name s = sound_note_loop notes_table name s"

text \<open>
  The \<open>while (1)\<close> loop of \<open>sound_play_sequence\<close>.  The first argument is the rest of
  the input from \<open>str\<close> on; \<open>token\<close> holds \<open>token[0..ti-1]\<close>, so \<open>ti\<close> is its length.
\<close>

fun sound_play_sequence_loop :: "string \<Rightarrow> string \<Rightarrow> pc \<Rightarrow> pc option" where
  "sound_play_sequence_loop [] token s =
     (if length token > 0 then
        do { s1 \<leftarrow> sound_note token s; sound_play 0 80 s1 }
      else Some s)"
| "sound_play_sequence_loop (c # str) token s =
     (if c = CHR '' '' then
        (if length token > 0 then
           do { s1 \<leftarrow> sound_note token s;
                s2 \<leftarrow> sound_play 0 80 s1;
                sound_play_sequence_loop str [] s2 }
         else sound_play_sequence_loop str token s)
      else if length token < 7 then sound_play_sequence_loop str (token @ [c]) s
      else sound_play_sequence_loop str token s)"

definition sound_play_sequence :: "string \<Rightarrow> pc \<Rightarrow> pc option" where
  "sound_play_sequence str s = sound_play_sequence_loop str [] s"

subsection \<open>Observing a run\<close>

text \<open>
  The port answers that a run from \<open>s\<close> to \<open>s'\<close> has consumed.  During \<open>delay_ms\<close>
  they are the low and high bytes of the successive counter samples;
  \<open>ticks_accumulated\<close> is the sum, as an unbounded number, of the deltas that
  \<open>delay_ms\<close> attributes to a list of consecutive samples.
\<close>

definition consumed :: "pc \<Rightarrow> pc \<Rightarrow> u8 list" where
  "consumed s s' = take (length (port_in s) - length (port_in s')) (port_in s)"

fun pit_samples :: "u8 list \<Rightarrow> u16 list" where
  "pit_samples (lo # hi # bs) = (push_bit 8 (ucast hi) OR ucast lo) # pit_samples bs"
| "pit_samples _ = []"

fun ticks_accumulated :: "u16 list \<Rightarrow> nat" where
  "ticks_accumulated (prev # cur # rest) =
     unat (delay_delta prev cur) + ticks_accumulated (cur # rest)"
| "ticks_accumulated _ = 0"

text \<open>
  A machine whose counter reads 1000 and then 0, for a request of 3600141 ms
  (\<open>3600141 * 1193 = 2 ^ 32 + 917\<close>).
\<close>

definition pc_counter_1000_0 :: pc where
  "pc_counter_1000_0 =
     \<lparr>cursor_row = 0, cursor_col = 0, current_color = 0x07, VGA_MEM = [],
      port_in = [0xE8, 0x03, 0x00, 0x00], port_log = []\<rparr>"

text \<open>The part of the log that a run from \<open>s\<close> to \<open>s'\<close> has added.\<close>

definition new_events :: "pc \<Rightarrow> pc \<Rightarrow> io_event list" where
  "new_events s s' = drop (length (port_log s)) (port_log s')"

text \<open>
  Writes to the speaker gate (port 0x61) in a log, each paired with the value that
  the directly preceding port access read from port 0x61, if it was such a read.
\<close>

fun gate_writes :: "io_event option \<Rightarrow> io_event list \<Rightarrow> (u8 option \<times> u8) list" where
  "gate_writes before [] = []"
| "gate_writes before (Out p w # es) =
     (if p = 0x61 then
        (case before of
           Some (In q v) \<Rightarrow> (if q = 0x61 then Some v else None)
         | _ \<Rightarrow> None, w) # gate_writes (Some (Out p w)) es
      else gate_writes (Some (Out p w)) es)"
| "gate_writes before (In p v # es) = gate_writes (Some (In p v)) es"

section \<open>vga.c: the text-mode frame buffer\<close>

abbreviation VGA_WIDTH :: int where "VGA_WIDTH \<equiv> 80"
abbreviation VGA_HEIGHT :: int where "VGA_HEIGHT \<equiv> 25"

text \<open>
  An array store \<open>a[i] = v\<close>.  The arrays of the model are exactly as long as the C
  objects (2000 cells of video memory, \<open>max\<close> bytes of line buffer); a store outside
  them hits memory that is not part of the model and leaves the array as it is.
\<close>

definition store :: "int \<Rightarrow> 'a \<Rightarrow> 'a list \<Rightarrow> 'a list" where
  "store i v xs = (if 0 \<le> i \<and> i < int (length xs) then xs[nat i := v] else xs)"

definition vga_entry :: "u8 \<Rightarrow> u8 \<Rightarrow> u16" where
  "vga_entry c color = ucast c OR push_bit 8 (ucast color)"

definition vga_update_cursor :: "pc \<Rightarrow> pc" where
  "vga_update_cursor s =
     (let pos = (word_of_int (cursor_row s * VGA_WIDTH + cursor_col s) :: u16) in
      outb 0x3D5 (ucast (drop_bit 8 pos))
        (outb 0x3D4 0x0E
          (outb 0x3D5 (ucast (pos AND 0xFF))
            (outb 0x3D4 0x0F s))))"

text \<open>
  \<open>bg\<close> and \<open>fg\<close> are promoted to \<open>int\<close>; the result is cut to the 8 bits of
  \<open>current_color\<close>.
\<close>

definition vga_set_color :: "u8 \<Rightarrow> u8 \<Rightarrow> pc \<Rightarrow> pc" where
  "vga_set_color fg bg s =
     s\<lparr>current_color :=
         ucast (push_bit 4 (ucast bg :: u32) OR (ucast fg AND 0x0F))\<rparr>"

text \<open>\<open>VGA_MEM[i] = v\<close> as a state update.\<close>

definition vga_write :: "int \<Rightarrow> u16 \<Rightarrow> pc \<Rightarrow> pc" where
  "vga_write i v s = s\<lparr>VGA_MEM := store i v (VGA_MEM s)\<rparr>"

definition vga_clear :: "pc \<Rightarrow> pc" where
  "vga_clear s =
     (let s1 = fold (\<lambda>i t. vga_write (int i) (vga_entry 0x20 (current_color t)) t)
                 [0 ..< nat (VGA_WIDTH * VGA_HEIGHT)] s
      in vga_update_cursor (s1\<lparr>cursor_row := 0, cursor_col := 0\<rparr>))"

definition vga_init :: "pc \<Rightarrow> pc" where
  "vga_init s = vga_clear (s\<lparr>current_color := 0x07\<rparr>)"

text \<open>
  \<open>vga_scroll\<close>: the two nested \<open>for\<close> statements that copy, then the one that blanks the
  last row.  The cells read, \<open>(row + 1) * 80 + col\<close> with \<open>row < 24\<close> and \<open>col < 80\<close>,
  lie inside the 2000 cells.
\<close>

definition vga_scroll :: "pc \<Rightarrow> pc" where
  "vga_scroll s =
     (let s1 = fold (\<lambda>row. fold (\<lambda>col t.
                   vga_write (int row * VGA_WIDTH + int col)
                     (VGA_MEM t ! nat ((int row + 1) * VGA_WIDTH + int col)) t)
                   [0 ..< nat VGA_WIDTH])
                 [0 ..< nat (VGA_HEIGHT - 1)] s;
          s2 = fold (\<lambda>col t.
                   vga_write ((VGA_HEIGHT - 1) * VGA_WIDTH + int col)
                     (vga_entry 0x20 (current_color t)) t)
                 [0 ..< nat VGA_WIDTH] s1
      in s2\<lparr>cursor_row := VGA_HEIGHT - 1\<rparr>)"

text \<open>Characters are bytes: \<open>'\n'\<close> is 0x0A, \<open>'\r'\<close> 0x0D, \<open>'\b'\<close> 0x08, \<open>' '\<close> 0x20.\<close>

definition vga_putchar :: "u8 \<Rightarrow> pc \<Rightarrow> pc" where
  "vga_putchar c s =
     (let s1 =
        (if c = 0x0A then s\<lparr>cursor_col := 0, cursor_row := cursor_row s + 1\<rparr>
         else if c = 0x0D then s\<lparr>cursor_col := 0\<rparr>
         else if c = 0x08 then
           (if cursor_col s > 0 then
              (let t = s\<lparr>cursor_col := cursor_col s - 1\<rparr> in
               vga_write (cursor_row t * VGA_WIDTH + cursor_col t)
                 (vga_entry 0x20 (current_color t)) t)
            else s)
         else
           (let t = vga_write (cursor_row s * VGA_WIDTH + cursor_col s)
                      (vga_entry c (current_color s)) s;
                t' = t\<lparr>cursor_col := cursor_col t + 1\<rparr>
            in if cursor_col t' \<ge> VGA_WIDTH
               then t'\<lparr>cursor_col := 0, cursor_row := cursor_row t' + 1\<rparr>
               else t'));
          s2 = (if cursor_row s1 \<ge> VGA_HEIGHT then vga_scroll s1 else s1)
      in vga_update_cursor s2)"

fun vga_print :: "u8 list \<Rightarrow> pc \<Rightarrow> pc" where
  "vga_print [] s = s"
| "vga_print (c # str) s = vga_print str (vga_putchar c s)"

definition vga_newline :: "pc \<Rightarrow> pc" where
  "vga_newline s = vga_putchar 0x0A s"

text \<open>
  The digit loop of \<open>vga_print_int\<close>: \<open>buf\<close> holds \<open>buf[0..i-1]\<close>, least significant
  digit first.
\<close>

function print_int_digits :: "u32 \<Rightarrow> u8 list \<Rightarrow> u8 list" where
  "print_int_digits n buf =
     (if n > 0 then print_int_digits (n div 10) (buf @ [0x30 + ucast (n mod 10)])
      else buf)"
  by pat_completeness auto
termination
proof (relation "measure (\<lambda>(n, buf). unat n)")
  show "wf (measure (\<lambda>(n, buf). unat n))"
    by simp
next
  fix n :: u32 and buf :: "u8 list"
  assume "0 < n"
  then have "0 < unat n"
    by (simp add: word_greater_zero_iff unat_gt_0)
  then have "unat n div 10 < unat n"
    by simp
  then show "((n div 10, buf @ [0x30 + ucast (n mod 10)]), (n, buf))
               \<in> measure (\<lambda>(n, buf). unat n)"
    by (simp add: unat_div)
qed

declare print_int_digits.simps [simp del]

definition vga_print_int :: "u32 \<Rightarrow> pc \<Rightarrow> pc" where
  "vga_print_int n s =
     (if n = 0 then vga_putchar 0x30 s
      else fold vga_putchar (rev (print_int_digits n [])) s)"

definition vga_print_int2 :: "u8 \<Rightarrow> pc \<Rightarrow> pc" where
  "vga_print_int2 n s = vga_putchar (0x30 + n mod 10) (vga_putchar (0x30 + n div 10) s)"

text \<open>
  \<open>vga_flash\<close>: each of its two passes swaps the colour nibbles of every cell; the
  busy loop between them changes nothing.
\<close>

definition flash_entry :: "u16 \<Rightarrow> u16" where
  "flash_entry entry =
     (let attr = (ucast (drop_bit 8 entry) :: u8);
          inv = push_bit 4 (attr AND 0x0F) OR (drop_bit 4 attr AND 0x0F)
      in (entry AND 0x00FF) OR push_bit 8 (ucast inv))"

definition vga_flash :: "pc \<Rightarrow> pc" where
  "vga_flash s =
     (let s1 = fold (\<lambda>i t. vga_write (int i) (flash_entry (VGA_MEM t ! i)) t)
                 [0 ..< nat (VGA_WIDTH * VGA_HEIGHT)] s
      in fold (\<lambda>i t. vga_write (int i) (flash_entry (VGA_MEM t ! i)) t)
           [0 ..< nat (VGA_WIDTH * VGA_HEIGHT)] s1)"

section \<open>keyboard.c: the PS/2 keyboard\<close>

definition bytes_of :: "string \<Rightarrow> u8 list" where
  "bytes_of str = map (\<lambda>c. of_nat (of_char c)) str"

text \<open>The table \<open>sc_azerty\<close>, row by row as in the source (eight codes per row).\<close>

definition sc_azerty :: "u8 list" where
  "sc_azerty =
     [0, 0] @ bytes_of ''123456'' @
     bytes_of ''7890-='' @ [0x08, 0x09] @
     bytes_of ''azertyui'' @
     bytes_of ''op[]'' @ [0x0A, 0] @ bytes_of ''qs'' @
     bytes_of ''dfghjklm'' @
     [0x27, 0x60, 0, 0x5C] @ bytes_of ''wxcv'' @
     bytes_of ''bn,./'' @ [0, 0x2A, 0] @
     [0, 0x20, 0, 0, 0, 0, 0, 0] @
     replicate 64 0"

text \<open>The inner loop \<open>while (!(inb(KB_STATUS) & 0x01));\<close>.\<close>

function keyboard_poll :: "pc \<Rightarrow> pc option" where
  "keyboard_poll s =
     (case inb 0x64 s of
        None \<Rightarrow> None
      | Some (st, s1) \<Rightarrow> (if st AND 0x01 = 0 then keyboard_poll s1 else Some s1))"
  by pat_completeness auto
termination
  by (relation "measure (\<lambda>s. length (port_in s))")
     (auto simp: inb_def split: list.splits)

declare keyboard_poll.simps [simp del]

function keyboard_getchar :: "pc \<Rightarrow> (u8 \<times> pc) option" where
  "keyboard_getchar s =
     (case keyboard_poll s of
        None \<Rightarrow> None
      | Some s1 \<Rightarrow>
          (case inb 0x60 s1 of
             None \<Rightarrow> None
           | Some (sc, s2) \<Rightarrow>
               (if sc AND 0x80 \<noteq> 0 then keyboard_getchar s2
                else if sc \<ge> 128 then keyboard_getchar s2
                else (let c = sc_azerty ! unat sc in
                      if c \<noteq> 0 then Some (c, s2) else keyboard_getchar s2))))"
  by pat_completeness auto
termination
proof -
  have poll: "length (port_in s1) \<le> length (port_in s)" if "keyboard_poll s = Some s1" for s s1
    using that
  proof (induction "length (port_in s)" arbitrary: s rule: less_induct)
    case less
    show ?case
    proof (cases "port_in s")
      case Nil
      with less.prems show ?thesis
        by (subst (asm) keyboard_poll.simps) (simp add: inb_def)
    next
      case (Cons st ins)
      let ?t = "s\<lparr>port_in := ins, port_log := port_log s @ [In 0x64 st]\<rparr>"
      have step: "keyboard_poll s = (if st AND 0x01 = 0 then keyboard_poll ?t else Some ?t)"
        by (subst keyboard_poll.simps) (simp add: inb_def Cons)
      show ?thesis
      proof (cases "st AND 0x01 = 0")
        case True
        with step less.prems have "keyboard_poll ?t = Some s1"
          by simp
        then have "length (port_in s1) \<le> length (port_in ?t)"
          using less.hyps[of ?t] Cons by simp
        with Cons show ?thesis
          by simp
      next
        case False
        with step less.prems have "s1 = ?t"
          by simp
        with Cons show ?thesis
          by simp
      qed
    qed
  qed
  have m: "(y, s) \<in> measure (\<lambda>s. length (port_in s))"
    if "keyboard_poll s = Some x2" "inb 0x60 x2 = Some x2a" "(x, y) = x2a"
    for s x2 x2a x and y :: pc
    using poll[OF that(1)] that(2,3) by (auto simp: inb_def split: list.splits)
  show ?thesis
    by (relation "measure (\<lambda>s. length (port_in s))") (simp, (erule (2) m)+)
qed

declare keyboard_getchar.simps [simp del]

text \<open>
  The \<open>for (;;)\<close> loop of \<open>keyboard_readline\<close>.  The result is the returned length,
  the caller's buffer and the machine state; \<open>max_len\<close> is the parameter \<open>max\<close>.
\<close>

function keyboard_readline_loop :: "int \<Rightarrow> u8 list \<Rightarrow> int \<Rightarrow> pc \<Rightarrow> (int \<times> u8 list \<times> pc) option" where
  "keyboard_readline_loop max_len buf len s =
     (case keyboard_getchar s of
        None \<Rightarrow> None
      | Some (c, s1) \<Rightarrow>
          (if c = 0x0A then Some (len, store len 0x00 buf, vga_putchar 0x0A s1)
           else if c = 0x08 then
             (if len > 0 then keyboard_readline_loop max_len buf (len - 1) (vga_putchar 0x08 s1)
              else keyboard_readline_loop max_len buf len s1)
           else if len < max_len - 1 then
             keyboard_readline_loop max_len (store len c buf) (len + 1) (vga_putchar c s1)
           else keyboard_readline_loop max_len buf len s1))"
  by pat_completeness auto
termination
proof -
  have poll: "length (port_in s1) \<le> length (port_in s)" if "keyboard_poll s = Some s1" for s s1
    using that
  proof (induction "length (port_in s)" arbitrary: s rule: less_induct)
    case less
    show ?case
    proof (cases "port_in s")
      case Nil
      with less.prems show ?thesis
        by (subst (asm) keyboard_poll.simps) (simp add: inb_def)
    next
      case (Cons st ins)
      let ?t = "s\<lparr>port_in := ins, port_log := port_log s @ [In 0x64 st]\<rparr>"
      have step: "keyboard_poll s = (if st AND 0x01 = 0 then keyboard_poll ?t else Some ?t)"
        by (subst keyboard_poll.simps) (simp add: inb_def Cons)
      show ?thesis
      proof (cases "st AND 0x01 = 0")
        case True
        with step less.prems have "keyboard_poll ?t = Some s1"
          by simp
        then have "length (port_in s1) \<le> length (port_in ?t)"
          using less.hyps[of ?t] Cons by simp
        with Cons show ?thesis
          by simp
      next
        case False
        with step less.prems have "s1 = ?t"
          by simp
        with Cons show ?thesis
          by simp
      qed
    qed
  qed
  have getc: "length (port_in s1) < length (port_in s)"
    if "keyboard_getchar s = Some (c, s1)" for s s1 c
    using that
  proof (induction "length (port_in s)" arbitrary: s rule: less_induct)
    case less
    show ?case
    proof (cases "keyboard_poll s")
      case None
      then have "keyboard_getchar s = None"
        by (subst keyboard_getchar.simps) simp
      with less.prems show ?thesis
        by simp
    next
      case (Some t)
      show ?thesis
      proof (cases "port_in t")
        case Nil
        with Some have "keyboard_getchar s = None"
          by (subst keyboard_getchar.simps) (simp add: inb_def)
        with less.prems show ?thesis
          by simp
      next
        case (Cons sc ins)
        let ?t' = "t\<lparr>port_in := ins, port_log := port_log t @ [In 0x60 sc]\<rparr>"
        have l: "length (port_in ?t') < length (port_in s)"
          using poll[OF Some] Cons by simp
        have step: "keyboard_getchar s =
          (if sc AND 0x80 \<noteq> 0 \<or> sc \<ge> 128 \<or> sc_azerty ! unat sc = 0
           then keyboard_getchar ?t' else Some (sc_azerty ! unat sc, ?t'))"
          by (subst keyboard_getchar.simps) (simp add: inb_def Some Cons Let_def)
        show ?thesis
        proof (cases "sc AND 0x80 \<noteq> 0 \<or> sc \<ge> 128 \<or> sc_azerty ! unat sc = 0")
          case True
          with step less.prems have "keyboard_getchar ?t' = Some (c, s1)"
            by simp
          from less.hyps[OF l this] l show ?thesis
            by simp
        next
          case False
          with step less.prems have "s1 = ?t'"
            by simp
          with l show ?thesis
            by simp
        qed
      qed
    qed
  qed
  have put: "port_in (vga_putchar c s) = port_in s" for c s
  proof -
    have w: "port_in (vga_write i v t) = port_in t" for i v t
      by (simp add: vga_write_def)
    have f: "port_in (fold (\<lambda>col t. vga_write (g col) (h col t) t) cols t) = port_in t"
      for g :: "nat \<Rightarrow> int" and h cols t
      by (induction cols arbitrary: t) (simp_all add: w)
    have ff: "port_in (fold (\<lambda>row. fold (\<lambda>col t. vga_write (g row col) (h row col t) t) cols) rows t)
                = port_in t"
      for g :: "nat \<Rightarrow> nat \<Rightarrow> int" and h cols rows t
      by (induction rows arbitrary: t) (simp_all add: f)
    have sc: "port_in (vga_scroll t) = port_in t" for t
      by (simp add: vga_scroll_def Let_def f ff)
    have uc: "port_in (vga_update_cursor t) = port_in t" for t
      by (simp add: vga_update_cursor_def Let_def outb_def)
    show ?thesis
      by (simp add: vga_putchar_def Let_def uc sc w)
  qed
  have m: "((ml, b, l, vga_putchar d s1), (ml', b', l', s)) \<in> measure (\<lambda>(m, buf, len, s). length (port_in s))"
    "((ml, b, l, s1), (ml', b', l', s)) \<in> measure (\<lambda>(m, buf, len, s). length (port_in s))"
    if "keyboard_getchar s = Some x2" "(c, s1) = x2"
    for s x2 c s1 d and ml ml' l l' :: int and b b' :: "u8 list"
    using getc[of s c s1] that by (simp_all add: put)
  show ?thesis
    by (relation "measure (\<lambda>(m, buf, len, s). length (port_in s))")
       (simp, (erule (1) m)+)
qed

declare keyboard_readline_loop.simps [simp del]

definition keyboard_readline :: "u8 list \<Rightarrow> int \<Rightarrow> pc \<Rightarrow> (int \<times> u8 list \<times> pc) option" where
  "keyboard_readline buf max_len s = keyboard_readline_loop max_len buf 0 s"

section \<open>The Raspberry Pi 3: the PL011 UART\<close>

text \<open>
  Memory-mapped I/O of the AArch64 build.  As for the ports of the PC, the values that
  the device returns to the successive volatile loads are a queue \<open>mmio_in\<close>, and
  every volatile access is appended to \<open>mmio_log\<close> with its address.
\<close>

datatype mmio_event = Rd u32 u32 | Wr u32 u32

record rpi =
  mmio_in :: "u32 list"
  mmio_log :: "mmio_event list"

abbreviation UART_DR :: u32 where "UART_DR \<equiv> 0x3F201000"
abbreviation UART_FR :: u32 where "UART_FR \<equiv> 0x3F201018"
abbreviation FR_TXFF :: u32 where "FR_TXFF \<equiv> 0x20"
abbreviation FR_RXFE :: u32 where "FR_RXFE \<equiv> 0x10"

definition mmio_read :: "u32 \<Rightarrow> rpi \<Rightarrow> (u32 \<times> rpi) option" where
  "mmio_read addr u =
     (case mmio_in u of
        [] \<Rightarrow> None
      | v # vs \<Rightarrow> Some (v, u\<lparr>mmio_in := vs, mmio_log := mmio_log u @ [Rd addr v]\<rparr>))"

definition mmio_write :: "u32 \<Rightarrow> u32 \<Rightarrow> rpi \<Rightarrow> rpi" where
  "mmio_write addr val u = u\<lparr>mmio_log := mmio_log u @ [Wr addr val]\<rparr>"

subsection \<open>The serial console (\<^verbatim>\<open>vga_rpi3.c\<close>)\<close>

text \<open>The loop \<open>while (*UART_FR & FR_TXFF);\<close> of \<open>uart_putchar\<close>.\<close>

function uart_tx_wait :: "rpi \<Rightarrow> rpi option" where
  "uart_tx_wait u =
     (case mmio_read UART_FR u of
        None \<Rightarrow> None
      | Some (fr, u1) \<Rightarrow> (if fr AND FR_TXFF \<noteq> 0 then uart_tx_wait u1 else Some u1))"
  by pat_completeness auto
termination
  by (relation "measure (\<lambda>u. length (mmio_in u))")
     (auto simp: mmio_read_def split: list.splits)

declare uart_tx_wait.simps [simp del]

definition uart_putchar :: "u8 \<Rightarrow> rpi \<Rightarrow> rpi option" where
  "uart_putchar c u =
     (case uart_tx_wait u of
        None \<Rightarrow> None
      | Some u1 \<Rightarrow> Some (mmio_write UART_DR (ucast c) u1))"

fun uart_puts :: "u8 list \<Rightarrow> rpi \<Rightarrow> rpi option" where
  "uart_puts [] u = Some u"
| "uart_puts (c # str) u =
     do { u1 \<leftarrow> (if c = 0x0A then uart_putchar 0x0D u else Some u);
          u2 \<leftarrow> uart_putchar c u1;
          uart_puts str u2 }"

definition vga_putchar_rpi3 :: "u8 \<Rightarrow> rpi \<Rightarrow> rpi option" where
  "vga_putchar_rpi3 c u =
     do { u1 \<leftarrow> (if c = 0x0A then uart_putchar 0x0D u else Some u);
          uart_putchar c u1 }"

definition vga_print_int2_rpi3 :: "u8 \<Rightarrow> rpi \<Rightarrow> rpi option" where
  "vga_print_int2_rpi3 n u =
     do { u1 \<leftarrow> uart_putchar (0x30 + n div 10) u;
          uart_putchar (0x30 + n mod 10) u1 }"

text \<open>The table \<open>ansi_fg\<close>; \<open>\033\<close> is the byte 0x1B.\<close>

definition ansi_fg :: "u8 list list" where
  "ansi_fg =
     [0x1B # bytes_of ''[30m'', 0x1B # bytes_of ''[34m'', 0x1B # bytes_of ''[32m'',
      0x1B # bytes_of ''[36m'', 0x1B # bytes_of ''[31m'', 0x1B # bytes_of ''[35m'',
      0x1B # bytes_of ''[33m'', 0x1B # bytes_of ''[37m'', 0x1B # bytes_of ''[90m'',
      0x1B # bytes_of ''[94m'', 0x1B # bytes_of ''[92m'', 0x1B # bytes_of ''[96m'',
      0x1B # bytes_of ''[91m'', 0x1B # bytes_of ''[95m'', 0x1B # bytes_of ''[93m'',
      0x1B # bytes_of ''[97m'']"

definition vga_set_color_rpi3 :: "u8 \<Rightarrow> u8 \<Rightarrow> rpi \<Rightarrow> rpi option" where
  "vga_set_color_rpi3 fg bg u =
     (if fg < 16 then uart_puts (ansi_fg ! unat fg) u else Some u)"

subsection \<open>Serial input (\<^verbatim>\<open>keyboard_rpi3.c\<close>)\<close>

text \<open>
  \<open>keyboard_getchar\<close>: the loop \<open>while (*UART_FR & FR_RXFE);\<close>, then the load of the
  data register.
\<close>

function keyboard_getchar_rpi3 :: "rpi \<Rightarrow> (u8 \<times> rpi) option" where
  "keyboard_getchar_rpi3 u =
     (case mmio_read UART_FR u of
        None \<Rightarrow> None
      | Some (fr, u1) \<Rightarrow>
          (if fr AND FR_RXFE \<noteq> 0 then keyboard_getchar_rpi3 u1
           else (case mmio_read UART_DR u1 of
                   None \<Rightarrow> None
                 | Some (dr, u2) \<Rightarrow> Some (ucast (dr AND 0xFF), u2))))"
  by pat_completeness auto
termination
  by (relation "measure (\<lambda>u. length (mmio_in u))")
     (auto simp: mmio_read_def split: list.splits)

declare keyboard_getchar_rpi3.simps [simp del]

text \<open>
  The \<open>for (;;)\<close> loop of \<open>keyboard_readline\<close>.  The AArch64 compiler of the build
  (aarch64-linux-gnu-gcc, no \<open>-fsigned-char\<close>) has an unsigned \<open>char\<close>, so \<open>c >= 32\<close>
  compares the byte as a number from 0 to 255.
\<close>

function keyboard_readline_loop_rpi3 ::
    "int \<Rightarrow> u8 list \<Rightarrow> int \<Rightarrow> rpi \<Rightarrow> (int \<times> u8 list \<times> rpi) option" where
  "keyboard_readline_loop_rpi3 max_len buf len u =
     (case keyboard_getchar_rpi3 u of
        None \<Rightarrow> None
      | Some (c, u1) \<Rightarrow>
          (if c = 0x0D \<or> c = 0x0A then
             (case vga_putchar_rpi3 0x0A u1 of
                None \<Rightarrow> None
              | Some u2 \<Rightarrow> Some (len, store len 0x00 buf, u2))
           else if c = 0x08 \<or> c = 127 then
             (if len > 0 then
                (case vga_putchar_rpi3 0x08 u1 of
                   None \<Rightarrow> None
                 | Some u2 \<Rightarrow>
                     (case vga_putchar_rpi3 0x20 u2 of
                        None \<Rightarrow> None
                      | Some u3 \<Rightarrow>
                          (case vga_putchar_rpi3 0x08 u3 of
                             None \<Rightarrow> None
                           | Some u4 \<Rightarrow> keyboard_readline_loop_rpi3 max_len buf (len - 1) u4)))
              else keyboard_readline_loop_rpi3 max_len buf len u1)
           else if c \<ge> 32 \<and> len < max_len - 1 then
             (case vga_putchar_rpi3 c u1 of
                None \<Rightarrow> None
              | Some u2 \<Rightarrow> keyboard_readline_loop_rpi3 max_len (store len c buf) (len + 1) u2)
           else keyboard_readline_loop_rpi3 max_len buf len u1))"
  by pat_completeness auto
termination
proof -
  have getc: "length (mmio_in u1) < length (mmio_in u)"
    if "keyboard_getchar_rpi3 u = Some (c, u1)" for u u1 c
    using that
  proof (induction "length (mmio_in u)" arbitrary: u rule: less_induct)
    case less
    show ?case
    proof (cases "mmio_in u")
      case Nil
      then have "keyboard_getchar_rpi3 u = None"
        by (subst keyboard_getchar_rpi3.simps) (simp add: mmio_read_def)
      with less.prems show ?thesis
        by simp
    next
      case (Cons fr ins)
      let ?t = "u\<lparr>mmio_in := ins, mmio_log := mmio_log u @ [Rd UART_FR fr]\<rparr>"
      have step: "keyboard_getchar_rpi3 u =
          (if fr AND FR_RXFE \<noteq> 0 then keyboard_getchar_rpi3 ?t
           else (case mmio_read UART_DR ?t of
                   None \<Rightarrow> None
                 | Some (dr, u2) \<Rightarrow> Some (ucast (dr AND 0xFF), u2)))"
        by (subst keyboard_getchar_rpi3.simps) (simp add: mmio_read_def Cons)
      show ?thesis
      proof (cases "fr AND FR_RXFE \<noteq> 0")
        case True
        with step less.prems have "keyboard_getchar_rpi3 ?t = Some (c, u1)"
          by simp
        then have "length (mmio_in u1) < length (mmio_in ?t)"
          using less.hyps[of ?t] Cons by simp
        with Cons show ?thesis
          by simp
      next
        case False
        with step less.prems have "length (mmio_in u1) \<le> length ins"
          by (auto simp: mmio_read_def split: list.splits)
        with Cons show ?thesis
          by simp
      qed
    qed
  qed
  have wait: "length (mmio_in u1) \<le> length (mmio_in u)" if "uart_tx_wait u = Some u1" for u u1
    using that
  proof (induction "length (mmio_in u)" arbitrary: u rule: less_induct)
    case less
    show ?case
    proof (cases "mmio_in u")
      case Nil
      then have "uart_tx_wait u = None"
        by (subst uart_tx_wait.simps) (simp add: mmio_read_def)
      with less.prems show ?thesis
        by simp
    next
      case (Cons fr ins)
      let ?t = "u\<lparr>mmio_in := ins, mmio_log := mmio_log u @ [Rd UART_FR fr]\<rparr>"
      have step: "uart_tx_wait u = (if fr AND FR_TXFF \<noteq> 0 then uart_tx_wait ?t else Some ?t)"
        by (subst uart_tx_wait.simps) (simp add: mmio_read_def Cons)
      show ?thesis
      proof (cases "fr AND FR_TXFF \<noteq> 0")
        case True
        with step less.prems have "uart_tx_wait ?t = Some u1"
          by simp
        then have "length (mmio_in u1) \<le> length (mmio_in ?t)"
          using less.hyps[of ?t] Cons by simp
        with Cons show ?thesis
          by simp
      next
        case False
        with step less.prems have "u1 = ?t"
          by simp
        with Cons show ?thesis
          by simp
      qed
    qed
  qed
  have putc: "length (mmio_in u1) \<le> length (mmio_in u)" if "uart_putchar c u = Some u1" for c u u1
    using that wait[of u]
    by (auto simp: uart_putchar_def mmio_write_def split: option.splits)
  have put: "length (mmio_in u1) \<le> length (mmio_in u)" if "vga_putchar_rpi3 c u = Some u1" for c u u1
  proof (cases "c = 0x0A")
    case True
    with that obtain t where t: "uart_putchar 0x0D u = Some t" "uart_putchar c t = Some u1"
      by (auto simp: vga_putchar_rpi3_def split: bind_splits)
    from putc[OF t(1)] putc[OF t(2)] show ?thesis
      by simp
  next
    case False
    with that have "uart_putchar c u = Some u1"
      by (simp add: vga_putchar_rpi3_def)
    from putc[OF this] show ?thesis .
  qed
  have m1: "((ml, b, l, u1), (ml', b', l', u)) \<in> measure (\<lambda>(m, buf, len, u). length (mmio_in u))"
    if "keyboard_getchar_rpi3 u = Some x2" "(c, u1) = x2"
    for u x2 c u1 and ml ml' l l' :: int and b b' :: "u8 list"
    using getc that by auto
  have m2: "((ml, b, l, u2), (ml', b', l', u)) \<in> measure (\<lambda>(m, buf, len, u). length (mmio_in u))"
    if "keyboard_getchar_rpi3 u = Some x2" "(c, u1) = x2" "vga_putchar_rpi3 d u1 = Some u2"
    for u x2 c d u1 u2 and ml ml' l l' :: int and b b' :: "u8 list"
    using getc[of u c u1] put[OF that(3)] that by auto
  have m4: "((ml, b, l, u4), (ml', b', l', u)) \<in> measure (\<lambda>(m, buf, len, u). length (mmio_in u))"
    if "keyboard_getchar_rpi3 u = Some x2" "(c, u1) = x2" "vga_putchar_rpi3 d u1 = Some u2"
       "vga_putchar_rpi3 e u2 = Some u3" "vga_putchar_rpi3 f u3 = Some u4"
    for u x2 c d e f u1 u2 u3 u4 and ml ml' l l' :: int and b b' :: "u8 list"
    using getc[of u c u1] put[OF that(3)] put[OF that(4)] put[OF that(5)] that by auto
  show ?thesis
    by (relation "measure (\<lambda>(m, buf, len, u). length (mmio_in u))")
       (simp, (erule (4) m4 | erule (2) m2 | erule (1) m1)+)
qed

declare keyboard_readline_loop_rpi3.simps [simp del]

definition keyboard_readline_rpi3 :: "u8 list \<Rightarrow> int \<Rightarrow> rpi \<Rightarrow> (int \<times> u8 list \<times> rpi) option" where
  "keyboard_readline_rpi3 buf max_len u = keyboard_readline_loop_rpi3 max_len buf 0 u"

section \<open>Specification-side notions\<close>

subsection \<open>Note sequences\<close>

text \<open>
  The specification's description of \<open>play_sequence\<close>: the text is cut at every space
  into tokens (two consecutive spaces delimit an empty token); an empty token plays
  nothing; any other token, cut to its first 7 characters, goes to \<open>play_note\<close> and is
  followed by a rest of 80 ms.
\<close>

fun space_tokens :: "string \<Rightarrow> string list" where
  "space_tokens [] = [] # []"
| "space_tokens (c # cs) =
     (if c = CHR '' '' then [] # space_tokens cs
      else (c # hd (space_tokens cs)) # tl (space_tokens cs))"

fun play_tokens :: "string list \<Rightarrow> pc \<Rightarrow> pc option" where
  "play_tokens [] s = Some s"
| "play_tokens (t # ts) s =
     (if t = [] then play_tokens ts s
      else do { s1 \<leftarrow> sound_note (take 7 t) s;
                s2 \<leftarrow> sound_play 0 80 s1;
                play_tokens ts s2 })"

text \<open>
  The calls that \<open>sound_play_sequence "do re"\<close> makes, and the calls that claim C3
  describes (no rest after the last note).
\<close>

definition do_re_calls :: "pc \<Rightarrow> pc option" where
  "do_re_calls s =
     do { s1 \<leftarrow> sound_play 262 450 s;
          s2 \<leftarrow> sound_play 0 80 s1;
          s3 \<leftarrow> sound_play 294 450 s2;
          sound_play 0 80 s3 }"

definition do_re_without_trailing_rest :: "pc \<Rightarrow> pc option" where
  "do_re_without_trailing_rest s =
     do { s1 \<leftarrow> sound_play 262 450 s;
          s2 \<leftarrow> sound_play 0 80 s1;
          sound_play 294 450 s2 }"

text \<open>
  Port answers for one tone of 450 ms and for one rest of 80 ms: port 0x61 reads
  0x30; the counter reads 0, 1, 2, ... (it wraps almost fully between two samples,
  65535 ticks each time).
\<close>

definition tone_answers :: "u8 list" where
  "tone_answers =
     [0x30, 0, 0, 1, 0, 2, 0, 3, 0, 4, 0, 5, 0, 6, 0, 7, 0, 8, 0, 9, 0, 0x33]"

definition rest_answers :: "u8 list" where
  "rest_answers = [0x30, 0, 0, 1, 0, 2, 0]"

definition pc_melody :: pc where
  "pc_melody =
     \<lparr>cursor_row = 0, cursor_col = 0, current_color = 0x07, VGA_MEM = [],
      port_in = tone_answers @ rest_answers @ tone_answers @ rest_answers,
      port_log = []\<rparr>"

subsection \<open>The speaker gate\<close>

text \<open>The port accesses of \<open>pit0_read\<close>: the latch command and reads of port 0x40.\<close>

definition pit_event :: "io_event \<Rightarrow> bool" where
  "pit_event e = (case e of In p v \<Rightarrow> p = 0x40 | Out p v \<Rightarrow> p = 0x43)"

subsection \<open>The console\<close>

text \<open>The cursor denotes a cell of the 80 x 25 screen.\<close>

definition cursor_valid :: "pc \<Rightarrow> bool" where
  "cursor_valid s =
     (0 \<le> cursor_row s \<and> cursor_row s \<le> VGA_HEIGHT - 1 \<and>
      0 \<le> cursor_col s \<and> cursor_col s \<le> VGA_WIDTH - 1)"

text \<open>The index in \<open>VGA_MEM\<close> of the cell under the cursor.\<close>

definition cursor_pos :: "pc \<Rightarrow> nat" where
  "cursor_pos s = nat (cursor_row s * VGA_WIDTH + cursor_col s)"

text \<open>
  The characters that \<open>vga_putchar\<close> writes as a glyph (its last branch): all but
  \<open>'\n'\<close>, \<open>'\r'\<close> and \<open>'\b'\<close>.
\<close>

definition glyph :: "u8 \<Rightarrow> bool" where
  "glyph c = (c \<noteq> 0x0A \<and> c \<noteq> 0x0D \<and> c \<noteq> 0x08)"

text \<open>
  The cells of screen row \<open>r\<close>, and the rows that show something other than blanks
  in the current colour.
\<close>

definition row_cells :: "nat \<Rightarrow> pc \<Rightarrow> u16 list" where
  "row_cells r s = take 80 (drop (r * 80) (VGA_MEM s))"

definition rows_with_content :: "pc \<Rightarrow> nat list" where
  "rows_with_content s =
     filter (\<lambda>r. row_cells r s \<noteq> replicate 80 (vga_entry 0x20 (current_color s))) [0 ..< 25]"

text \<open>A machine with 2000 cells of video memory and nothing to read from the ports.\<close>

definition pc_screen :: pc where
  "pc_screen =
     \<lparr>cursor_row = 0, cursor_col = 0, current_color = 0x07, VGA_MEM = replicate 2000 0,
      port_in = [], port_log = []\<rparr>"

text \<open>The same machine with the cursor on the last cell, and at the end of the first row.\<close>

definition pc_last_cell :: pc where
  "pc_last_cell = pc_screen\<lparr>cursor_row := 24, cursor_col := 79\<rparr>"

definition pc_row_end :: pc where
  "pc_row_end = pc_screen\<lparr>cursor_row := 0, cursor_col := 79\<rparr>"

subsection \<open>Serial output and decimal digits\<close>

text \<open>The values that a log shows as written to the UART data register, in order.\<close>

fun tx_bytes :: "mmio_event list \<Rightarrow> u32 list" where
  "tx_bytes [] = []"
| "tx_bytes (Wr a v # es) = (if a = UART_DR then v # tx_bytes es else tx_bytes es)"
| "tx_bytes (Rd a v # es) = tx_bytes es"

definition ascii_digit :: "u8 \<Rightarrow> bool" where
  "ascii_digit c = (0x30 \<le> c \<and> c \<le> 0x39)"

text \<open>The number that a string of ASCII digits denotes in decimal.\<close>

definition decimal_value :: "u8 list \<Rightarrow> nat" where
  "decimal_value ds = foldl (\<lambda>a d. 10 * a + (unat d - 48)) 0 ds"

text \<open>A UART whose transmit FIFO is never full and that has nothing to receive.\<close>

definition rpi_tx_ready :: rpi where
  "rpi_tx_ready = \<lparr>mmio_in = replicate 8 0, mmio_log = []\<rparr>"

subsection \<open>Typing a line\<close>

text \<open>
  The port answers of the PS/2 controller while the keys a, b, Backspace, Backspace,
  Backspace, Enter are pressed: for every key the status 0x01 (output buffer full),
  then the make code (0x10, 0x30, 0x0E, 0x1C on the AZERTY table).
\<close>

definition ps2_ab_bs3_enter :: "u8 list" where
  "ps2_ab_bs3_enter =
     [0x01, 0x10, 0x01, 0x30, 0x01, 0x0E, 0x01, 0x0E, 0x01, 0x0E, 0x01, 0x1C]"

text \<open>
  The values that the UART returns while the bytes \<open>a\<close>, \<open>b\<close>, BS, DEL, BS, CR arrive
  and are echoed: every flag register read is 0 (receive FIFO not empty, transmit FIFO
  not full).  A stored character costs a flag read, the data read and a flag read for
  its echo; an erasing backspace a flag read, the data read and three flag reads for
  BS, space, BS; a discarded character and a backspace on the empty line a flag read
  and the data read; the carriage return a flag read, the data read and two flag reads
  for CR and LF.  Which characters are stored depends on the size of the buffer.
\<close>

definition uart_ab_bs3_cr :: "u32 list" where
  "uart_ab_bs3_cr =
     [0, 0x61, 0,  0, 0x62, 0,  0, 0x08, 0, 0, 0,  0, 0x7F, 0, 0, 0,  0, 0x08,
      0, 0x0D, 0, 0]"

definition uart_line_answers :: "int \<Rightarrow> u32 list" where
  "uart_line_answers max_len =
     (if 3 \<le> max_len then uart_ab_bs3_cr
      else if max_len = 2 then
        [0, 0x61, 0,  0, 0x62,  0, 0x08, 0, 0, 0,  0, 0x7F,  0, 0x08,  0, 0x0D, 0, 0]
      else
        [0, 0x61,  0, 0x62,  0, 0x08,  0, 0x7F,  0, 0x08,  0, 0x0D, 0, 0])"

text \<open>
  Machines for these inputs: the whole line, a single Backspace (PS/2), a single DEL
  and a single BEL (UART).
\<close>

definition pc_typing :: pc where
  "pc_typing = pc_screen\<lparr>port_in := ps2_ab_bs3_enter\<rparr>"

definition pc_backspace :: pc where
  "pc_backspace = pc_screen\<lparr>port_in := [0x01, 0x0E]\<rparr>"

definition rpi_typing :: rpi where
  "rpi_typing = \<lparr>mmio_in = uart_ab_bs3_cr, mmio_log = []\<rparr>"

definition rpi_delete :: rpi where
  "rpi_delete = \<lparr>mmio_in = [0, 0x7F], mmio_log = []\<rparr>"

definition rpi_bel :: rpi where
  "rpi_bel = \<lparr>mmio_in = [0, 0x07], mmio_log = []\<rparr>"

section \<open>Facts about machine words\<close>

lemma lt16: "unat (w :: u16) < 65536"
  using unsigned_less[of w, where 'a=nat] by simp

lemma lt8: "unat (w :: u8) < 256"
  using unsigned_less[of w, where 'a=nat] by simp

lemma lt32: "unat (w :: u32) < 4294967296"
  using unsigned_less[of w, where 'a=nat] by simp

lemma unat_ucast_32_16: "unat (ucast (w :: u32) :: u16) = unat w mod 65536"
  by (simp add: unsigned_ucast_eq take_bit_eq_mod)

lemma unat_ucast_16_32: "unat (ucast (w :: u16) :: u32) = unat w"
  using lt16[of w] by (simp add: unsigned_ucast_eq take_bit_eq_mod)

section \<open>The delay loop\<close>

lemma delay_delta_wrap:
  fixes prev cur :: u16
  assumes "unat prev < unat cur"
  shows "unat (ucast ((ucast prev :: u32) + (65536 - (ucast cur :: u32))) :: u16)
           = unat prev + (65536 - unat cur)"
proof -
  have c: "unat cur < 65536"
    by (rule lt16)
  have "unat ((65536 :: u32) - ucast cur) = 65536 - unat cur"
    using c by (simp add: unat_sub word_le_nat_alt unat_ucast_16_32)
  then have "unat ((ucast prev :: u32) + (65536 - (ucast cur :: u32)))
               = unat prev + (65536 - unat cur)"
    using c assms by (simp add: unat_word_ariths unat_ucast_16_32)
  then show ?thesis
    using c assms by (simp add: unat_ucast_32_16)
qed

text \<open>
  Claim C1, as amended.  For consecutive samples \<open>prev\<close> and \<open>cur\<close> the delta that
  \<open>delay_ms\<close> adds to \<open>elapsed\<close> is \<open>prev - cur\<close> when \<open>cur \<le> prev\<close> (so it is 0 for
  equal samples) and \<open>prev + (65536 - cur)\<close> when \<open>cur > prev\<close>.
\<close>

theorem C1_delta_law:
  "unat (delay_delta prev cur) =
     (if cur \<le> prev then unat prev - unat cur else unat prev + (65536 - unat cur))"
proof (cases "cur \<le> prev")
  case True
  then show ?thesis
    by (simp add: delay_delta_def unat_sub)
next
  case False
  then have lt: "unat prev < unat cur"
    by (simp add: word_less_nat_alt not_le)
  from False delay_delta_wrap[OF lt] show ?thesis
    by (simp add: delay_delta_def)
qed

text \<open>
  Claim C1 as stated fails at its own boundary case: for \<open>previous = 0\<close> and \<open>new = 0\<close>
  the sample has not decreased, the claim asks for \<open>0 + (65536 - 0)\<close> ticks, and the
  code adds none.
\<close>

theorem C1_equal_samples_counterexample:
  "unat (delay_delta 0 0) = 0 \<and>
   unat (delay_delta 0 0) \<noteq> unat (0 :: u16) + (65536 - unat (0 :: u16))"
  by (simp add: delay_delta_def)

lemma delay_ms_overflow_run:
  "delay_ms 3600141 pc_counter_1000_0 =
     Some (pc_counter_1000_0\<lparr>port_in := [],
             port_log := [Out 0x43 0x00, In 0x40 0xE8, In 0x40 0x03,
                          Out 0x43 0x00, In 0x40 0x00, In 0x40 0x00]\<rparr>)"
  by (simp add: delay_ms_def pc_counter_1000_0_def pit0_read_def inb_def outb_def
      delay_loop.simps delay_delta_def)

text \<open>
  Claim C2 at \<open>ms = 3600141\<close>: the product \<open>ms * 1193\<close> exceeds 32 bits and
  \<open>ticks_needed\<close> becomes 917.  With the counter reading 1000 and then 0, \<open>delay_ms\<close>
  returns after 1000 accumulated ticks, far fewer than \<open>3600141 * 1193\<close>.
\<close>

theorem C2_overflow_returns_early:
  "(3600141 :: u32) * 1193 = 917 \<and>
   (case delay_ms 3600141 pc_counter_1000_0 of
      None \<Rightarrow> False
    | Some s' \<Rightarrow>
        ticks_accumulated (pit_samples (consumed pc_counter_1000_0 s')) = 1000 \<and>
        1000 < unat (3600141 :: u32) * 1193)"
  by (simp add: delay_ms_overflow_run consumed_def delay_delta_def)
    (simp add: pc_counter_1000_0_def delay_delta_def)

text \<open>
  Where the product fits into 32 bits (\<open>ms \<le> 3600140\<close>), \<open>delay_ms\<close> does wait: if it
  returns, the ticks accumulated over the samples it consumed reach \<open>ms * 1193\<close>, also
  when \<open>elapsed\<close> itself wraps around on the way.
\<close>

lemma pit0_read_Some:
  "pit0_read s = Some (cur, s') \<Longrightarrow>
     \<exists>lo hi. port_in s = lo # hi # port_in s' \<and> cur = push_bit 8 (ucast hi) OR ucast lo \<and>
       port_log s' = port_log s @ [Out 0x43 0x00, In 0x40 lo, In 0x40 hi]"
  by (auto simp: pit0_read_def inb_def outb_def split: list.splits)

lemma delay_loop_waits:
  "delay_loop ticks_needed prev elapsed s = Some s' \<Longrightarrow> unat elapsed \<le> acc \<Longrightarrow>
     \<exists>bs. port_in s = bs @ port_in s' \<and>
       unat ticks_needed \<le> acc + ticks_accumulated (prev # pit_samples bs)"
proof (induction ticks_needed prev elapsed s arbitrary: acc rule: delay_loop.induct)
  case (1 ticks_needed prev elapsed s)
  show ?case
  proof (cases "elapsed < ticks_needed")
    case False
    with "1.prems" have "s' = s" "unat ticks_needed \<le> acc"
      by (simp_all add: delay_loop.simps word_less_nat_alt)
    then show ?thesis
      by (intro exI[of _ "[]"]) simp
  next
    case True
    with "1.prems" obtain cur t where r: "pit0_read s = Some (cur, t)"
      and l: "delay_loop ticks_needed cur (elapsed + ucast (delay_delta prev cur)) t = Some s'"
      by (subst (asm) delay_loop.simps) (auto split: option.splits)
    from pit0_read_Some[OF r] obtain lo hi where
      p: "port_in s = lo # hi # port_in t" and c: "cur = push_bit 8 (ucast hi) OR ucast lo"
      by blast
    have "unat (elapsed + ucast (delay_delta prev cur))
            \<le> unat elapsed + unat (delay_delta prev cur)"
      by (simp add: unat_word_ariths unat_ucast_16_32)
    with "1.prems" have
      "unat (elapsed + ucast (delay_delta prev cur)) \<le> acc + unat (delay_delta prev cur)"
      by simp
    from "1.IH"[OF True r refl l this] obtain bs where
      bs: "port_in t = bs @ port_in s'"
      "unat ticks_needed
         \<le> acc + unat (delay_delta prev cur) + ticks_accumulated (cur # pit_samples bs)"
      by blast
    show ?thesis
      using p c bs by (intro exI[of _ "lo # hi # bs"]) simp
  qed
qed

lemma delay_ms_waits:
  assumes "delay_ms ms s = Some s'" and "unat ms * 1193 < 2 ^ 32"
  shows "unat ms * 1193 \<le> ticks_accumulated (pit_samples (consumed s s'))"
proof -
  from assms(1) obtain prev t where r: "pit0_read s = Some (prev, t)"
    and l: "delay_loop (ms * 1193) prev 0 t = Some s'"
    by (auto simp: delay_ms_def split: option.splits)
  from pit0_read_Some[OF r] obtain lo hi where
    p: "port_in s = lo # hi # port_in t" and c: "prev = push_bit 8 (ucast hi) OR ucast lo"
    by blast
  from delay_loop_waits[OF l, of 0] obtain bs where
    bs: "port_in t = bs @ port_in s'"
    "unat (ms * 1193) \<le> ticks_accumulated (prev # pit_samples bs)"
    by auto
  have "unat (ms * 1193) = unat ms * 1193"
    using assms(2) by (simp add: unat_word_ariths)
  moreover have "consumed s s' = lo # hi # bs"
    using p bs by (simp add: consumed_def)
  ultimately show ?thesis
    using bs c by simp
qed

section \<open>Note sequences\<close>

lemma space_tokens_ne: "space_tokens str \<noteq> []"
  by (induction str) auto

lemma str_eq_sound_iff: "str_eq_sound a b \<longleftrightarrow> a = b"
  by (induction a b rule: str_eq_sound.induct) auto

lemma sound_note_do: "sound_note ''do'' s = sound_play 262 450 s"
  by (simp add: sound_note_def notes_table_def)

lemma sound_note_re: "sound_note ''re'' s = sound_play 294 450 s"
  by (simp add: sound_note_def notes_table_def)

lemma play_tokens_Nil: "play_tokens [] = Some"
  by (rule ext) simp

lemma play_tokens_Cons:
  "play_tokens (t # ts) =
     (\<lambda>s. if t = [] then play_tokens ts s
          else sound_note (take 7 t) s \<bind> (\<lambda>s1. sound_play 0 80 s1 \<bind> play_tokens ts))"
  by (rule ext) simp

lemma sound_play_sequence_do_re: "sound_play_sequence ''do re'' s = do_re_calls s"
proof -
  have "sound_play_sequence_loop ''re'' [] = (\<lambda>t. sound_play 294 450 t \<bind> sound_play 0 80)"
    by (rule ext) (simp add: sound_note_re)
  then show ?thesis
    by (simp add: sound_play_sequence_def do_re_calls_def sound_note_do)
qed

text \<open>
  The loop with a partly read token: the characters still to come extend the token,
  which is cut at 7 characters, up to the next space.
\<close>

lemma sound_play_sequence_loop_tokens:
  "length token \<le> 7 \<Longrightarrow>
   sound_play_sequence_loop str token =
     play_tokens (take 7 (token @ hd (space_tokens str)) # tl (space_tokens str))"
proof (induction str arbitrary: token)
  case Nil
  then show ?case
    by (intro ext) (simp add: play_tokens_Nil)
next
  case (Cons c str)
  obtain t ts where ts: "space_tokens str = t # ts"
    using space_tokens_ne[of str] by (cases "space_tokens str") auto
  show ?case
  proof (cases "c = CHR '' ''")
    case True
    with Cons.prems Cons.IH[of "[]"] ts show ?thesis
      by (intro ext) (simp add: play_tokens_Cons)
  next
    case False
    show ?thesis
    proof (cases "length token < 7")
      case True
      with False Cons.IH[of "token @ [c]"] ts show ?thesis
        by (intro ext) simp
    next
      case f: False
      with Cons.prems have "length token = 7"
        by simp
      with False Cons.IH[of token] ts show ?thesis
        by (intro ext) simp
    qed
  qed
qed

lemma sound_play_sequence_tokens:
  "sound_play_sequence str s = play_tokens (space_tokens str) s"
proof -
  obtain t ts where ts: "space_tokens str = t # ts"
    using space_tokens_ne[of str] by (cases "space_tokens str") auto
  have "sound_play_sequence str s = play_tokens (take 7 t # ts) s"
    using sound_play_sequence_loop_tokens[of "[]" str] ts by (simp add: sound_play_sequence_def)
  also have "\<dots> = play_tokens (t # ts) s"
    by simp
  finally show ?thesis
    by (simp add: ts)
qed

text \<open>
  Claim C3, as amended.  \<open>sound_play_sequence "do re"\<close> makes exactly the calls
  \<open>sound_play(262, 450)\<close>, \<open>sound_play(0, 80)\<close>, \<open>sound_play(294, 450)\<close>,
  \<open>sound_play(0, 80)\<close>: two tones of 450 ms, each followed by a silence of 80 ms, the
  last one included.  In general the function plays the space-delimited tokens of its
  input in order: an empty token plays nothing, every other token is cut to 7
  characters, passed to \<open>sound_note\<close> and followed by a rest of 80 ms.
\<close>

theorem C3_play_sequence:
  "sound_play_sequence ''do re'' s =
     do { s1 \<leftarrow> sound_play 262 450 s;
          s2 \<leftarrow> sound_play 0 80 s1;
          s3 \<leftarrow> sound_play 294 450 s2;
          sound_play 0 80 s3 } \<and>
   sound_note ''do'' s = sound_play 262 450 s \<and>
   sound_note ''re'' s = sound_play 294 450 s \<and>
   sound_play_sequence str s = play_tokens (space_tokens str) s"
  using sound_play_sequence_do_re[of s] sound_play_sequence_tokens[of str s]
  by (simp add: do_re_calls_def sound_note_do sound_note_re)

text \<open>
  Claim C3 as stated fails: on a machine that answers two tones and two rests, the
  run of \<open>sound_play_sequence "do re"\<close> is not the run of the two tones separated by one
  silence.  It goes on to consume the port answers of a trailing rest, which the
  claimed call sequence leaves unread.
\<close>

theorem C3_trailing_rest_counterexample:
  "sound_play_sequence ''do re'' pc_melody \<noteq> do_re_without_trailing_rest pc_melody \<and>
   map_option port_in (sound_play_sequence ''do re'' pc_melody) = Some [] \<and>
   map_option port_in (do_re_without_trailing_rest pc_melody) = Some rest_answers"
  by code_simp

section \<open>The speaker gate\<close>

lemma pit0_read_Some':
  "pit0_read s = Some (cur, s') \<Longrightarrow>
     \<exists>lo hi. port_log s' = port_log s @ [Out 0x43 0x00, In 0x40 lo, In 0x40 hi]"
  by (auto simp: pit0_read_def inb_def outb_def split: list.splits)

lemma pit_event_simps [simp]: "pit_event (Out 0x43 v)" "pit_event (In 0x40 v)"
  by (simp_all add: pit_event_def)

lemma delay_loop_events:
  "delay_loop ticks_needed prev elapsed s = Some s' \<Longrightarrow>
     \<exists>es. port_log s' = port_log s @ es \<and> list_all pit_event es \<and>
          (es \<noteq> [] \<longrightarrow> (\<exists>v. last es = In 0x40 v))"
proof (induction ticks_needed prev elapsed s rule: delay_loop.induct)
  case (1 ticks_needed prev elapsed s)
  show ?case
  proof (cases "elapsed < ticks_needed")
    case False
    with "1.prems" have "s' = s"
      by (simp add: delay_loop.simps)
    then show ?thesis
      by simp
  next
    case True
    with "1.prems" obtain cur t where r: "pit0_read s = Some (cur, t)"
      and l: "delay_loop ticks_needed cur (elapsed + ucast (delay_delta prev cur)) t = Some s'"
      by (subst (asm) delay_loop.simps) (auto split: option.splits)
    from pit0_read_Some'[OF r] obtain lo hi where
      p: "port_log t = port_log s @ [Out 0x43 0x00, In 0x40 lo, In 0x40 hi]"
      by blast
    from "1.IH"[OF True r refl l] obtain es where
      es: "port_log s' = port_log t @ es" "list_all pit_event es"
          "es \<noteq> [] \<longrightarrow> (\<exists>v. last es = In 0x40 v)"
      by blast
    show ?thesis
      using p es
      by (intro exI[of _ "[Out 0x43 0x00, In 0x40 lo, In 0x40 hi] @ es"])
         auto
  qed
qed

lemma delay_ms_events:
  assumes "delay_ms ms s = Some s'"
  shows "\<exists>es v. port_log s' = port_log s @ es \<and> list_all pit_event es \<and> es \<noteq> [] \<and>
           last es = In 0x40 v"
proof -
  from assms obtain prev t where r: "pit0_read s = Some (prev, t)"
    and l: "delay_loop (ms * 1193) prev 0 t = Some s'"
    by (auto simp: delay_ms_def split: option.splits)
  from pit0_read_Some'[OF r] obtain lo hi where
    p: "port_log t = port_log s @ [Out 0x43 0x00, In 0x40 lo, In 0x40 hi]"
    by blast
  from delay_loop_events[OF l] obtain es where
    es: "port_log s' = port_log t @ es" "list_all pit_event es"
        "es \<noteq> [] \<longrightarrow> (\<exists>v. last es = In 0x40 v)"
    by blast
  show ?thesis
    using p es
    by (intro exI[of _ "[Out 0x43 0x00, In 0x40 lo, In 0x40 hi] @ es"])
       auto
qed

lemma gate_writes_append:
  "gate_writes b (xs @ ys) =
     gate_writes b xs @ gate_writes (if xs = [] then b else Some (last xs)) ys"
  by (induction b xs rule: gate_writes.induct) auto

lemma gate_writes_pit: "list_all pit_event es \<Longrightarrow> gate_writes b es = []"
  by (induction b es rule: gate_writes.induct) (auto simp: pit_event_def)

lemma sound_stop_run:
  "sound_stop s =
     (case port_in s of
        [] \<Rightarrow> None
      | v # rest \<Rightarrow>
          Some (s\<lparr>port_in := rest,
                  port_log := port_log s @ [In 0x61 v, Out 0x61 (v AND NOT 0x03)]\<rparr>))"
  by (simp add: sound_stop_def inb_def outb_def split: list.splits)

lemma sound_stop_events:
  "sound_stop s = Some s' \<Longrightarrow> \<exists>v. port_log s' = port_log s @ [In 0x61 v, Out 0x61 (v AND NOT 0x03)]"
  by (auto simp: sound_stop_run split: list.splits)

lemma mask_bits:
  fixes w b :: u8
  shows "(w OR b) AND NOT b = w AND NOT b" "(w OR b) AND b = b"
    "(w AND NOT b) AND NOT b = w AND NOT b" "(w AND NOT b) AND b = 0"
  by (auto simp: bit_eq_iff bit_and_iff bit_or_iff bit_not_iff)

lemma low2_bits:
  fixes w :: u8
  shows "(w OR 0x03) AND 0xFC = w AND 0xFC \<and> (w OR 0x03) AND 0x03 = 0x03 \<and>
    (w AND NOT 0x03) AND 0xFC = w AND 0xFC \<and> (w AND NOT 0x03) AND 0x03 = 0"
proof -
  have fc: "(0xFC :: u8) = NOT 0x03"
    by simp
  show ?thesis
    unfolding fc using mask_bits[of w "0x03"] by blast
qed

text \<open>
  Claim C7.  A run of \<open>sound_play\<close> writes port 0x61 once when the frequency is 0 (the
  gate is switched off) and twice otherwise (on, then off after the delay).  Each of
  these writes directly follows a read of port 0x61 and writes the value just read
  with bits 0 and 1 set (on) or cleared (off); \<open>sound_stop\<close> is one such read and
  write.  Setting or clearing the two bits leaves bits 2 to 7 (mask 0xFC) as read.
\<close>

theorem C7_gate_read_modify_write:
  fixes w :: u8
  assumes "sound_play freq_hz duration_ms s = Some s'"
  shows "(\<exists>v v'. gate_writes None (new_events s s') =
            (if freq_hz = 0 then [(Some v', v' AND NOT 0x03)]
             else [(Some v, v OR 0x03), (Some v', v' AND NOT 0x03)])) \<and>
         sound_stop t =
           (case port_in t of
              [] \<Rightarrow> None
            | v # rest \<Rightarrow>
                Some (t\<lparr>port_in := rest,
                        port_log := port_log t @ [In 0x61 v, Out 0x61 (v AND NOT 0x03)]\<rparr>)) \<and>
         (w OR 0x03) AND 0xFC = w AND 0xFC \<and> (w OR 0x03) AND 0x03 = 0x03 \<and>
         (w AND NOT 0x03) AND 0xFC = w AND 0xFC \<and> (w AND NOT 0x03) AND 0x03 = 0"
proof -
  have "\<exists>v v'. gate_writes None (new_events s s') =
            (if freq_hz = 0 then [(Some v', v' AND NOT 0x03)]
             else [(Some v, v OR 0x03), (Some v', v' AND NOT 0x03)])"
  proof (cases "freq_hz = 0")
    case True
    with assms obtain t where t: "sound_stop s = Some t" and d: "delay_ms duration_ms t = Some s'"
      by (auto simp: sound_play_def split: bind_splits)
    from sound_stop_events[OF t] obtain v where
      v: "port_log t = port_log s @ [In 0x61 v, Out 0x61 (v AND NOT 0x03)]"
      by blast
    from delay_ms_events[OF d] obtain es where
      es: "port_log s' = port_log t @ es" "list_all pit_event es"
      by blast
    have "new_events s s' = [In 0x61 v, Out 0x61 (v AND NOT 0x03)] @ es"
      using v es by (simp add: new_events_def)
    then have "gate_writes None (new_events s s') = [(Some v, v AND NOT 0x03)]"
      using es(2) by (simp add: gate_writes_pit)
    with True show ?thesis
      by auto
  next
    case False
    define dv where "dv = (ucast (PIT_BASE_FREQ div freq_hz) :: u16)"
    define pre where "pre = [Out 0x43 0xB6, Out 0x42 (ucast (dv AND 0xFF)), Out 0x42 (ucast (drop_bit 8 dv))]"
    from assms False obtain v t1 t2 where
      i: "inb 0x61 (pit_set_divisor dv s) = Some (v, t1)" and
      d: "delay_ms duration_ms (outb 0x61 (v OR 0x03) t1) = Some t2" and
      st: "sound_stop t2 = Some s'"
      by (auto simp: sound_play_def Let_def dv_def split: option.splits bind_splits)
    from i have l1: "port_log (outb 0x61 (v OR 0x03) t1) = port_log s @ pre @ [In 0x61 v, Out 0x61 (v OR 0x03)]"
      by (auto simp: pit_set_divisor_def inb_def outb_def pre_def split: list.splits)
    from delay_ms_events[OF d] obtain es u where
      es: "port_log t2 = port_log (outb 0x61 (v OR 0x03) t1) @ es" "list_all pit_event es"
          "es \<noteq> []" "last es = In 0x40 u"
      by blast
    from sound_stop_events[OF st] obtain v' where
      v': "port_log s' = port_log t2 @ [In 0x61 v', Out 0x61 (v' AND NOT 0x03)]"
      by blast
    have "new_events s s' = (pre @ [In 0x61 v, Out 0x61 (v OR 0x03)]) @ es @ [In 0x61 v', Out 0x61 (v' AND NOT 0x03)]"
      using l1 es v' by (simp add: new_events_def)
    then have "gate_writes None (new_events s s') = [(Some v, v OR 0x03), (Some v', v' AND NOT 0x03)]"
      using es(2,3) by (simp add: gate_writes_append gate_writes_pit pre_def)
    with False show ?thesis
      by auto
  qed
  then show ?thesis
    using sound_stop_run[of t] low2_bits[of w] by simp
qed

text \<open>
  The theorem at the first tone of the melody machine: the gate is read as 0x30 and
  written as 0x33, and after the delay read as 0x33 and written as 0x30.
\<close>

theorem C7_gate_read_modify_write_witness:
  "\<exists>s'. sound_play 262 450 pc_melody = Some s' \<and>
     (\<exists>v v'. gate_writes None (new_events pc_melody s') =
        [(Some v, v OR 0x03), (Some v', v' AND NOT 0x03)])"
proof -
  have "sound_play 262 450 pc_melody \<noteq> None"
    by code_simp
  then obtain s' where s': "sound_play 262 450 pc_melody = Some s'"
    by blast
  from C7_gate_read_modify_write[OF s', of pc_melody 0] have
    "\<exists>v v'. gate_writes None (new_events pc_melody s') =
        [(Some v, v OR 0x03), (Some v', v' AND NOT 0x03)]"
    by simp
  with s' show ?thesis
    by blast
qed

section \<open>The frame buffer\<close>

lemma store_in: "i < length xs \<Longrightarrow> store (int i) v xs = xs[i := v]"
  by (simp add: store_def)

lemma length_store [simp]: "length (store i v xs) = length xs"
  by (simp add: store_def)

lemma fill_step:
  assumes "b + n < length m"
  shows "(take b m @ replicate n e @ drop (b + n) m)[b + n := e]
           = take b m @ replicate (Suc n) e @ drop (b + Suc n) m"
proof -
  have "drop (b + n) m = m ! (b + n) # drop (b + Suc n) m"
    using assms by (simp add: Cons_nth_drop_Suc)
  then show ?thesis
    using assms by (simp add: list_update_append replicate_append_same)
qed

lemma store_nat:
  "b + n < length xs \<Longrightarrow> store (int b + int n) v xs = xs[b + n := v]"
  by (simp add: store_def nat_int_add)

lemma fill_loop:
  "b + n \<le> length (VGA_MEM s) \<Longrightarrow>
   fold (\<lambda>i t. vga_write (int b + int i) (vga_entry 0x20 (current_color t)) t) [0 ..< n] s
     = s\<lparr>VGA_MEM := take b (VGA_MEM s) @ replicate n (vga_entry 0x20 (current_color s))
                        @ drop (b + n) (VGA_MEM s)\<rparr>"
proof (induction n)
  case 0
  then show ?case by simp
next
  case (Suc n)
  let ?f = "\<lambda>i t. vga_write (int b + int i) (vga_entry 0x20 (current_color t)) t"
  let ?e = "vga_entry 0x20 (current_color s)"
  let ?A = "\<lambda>n. take b (VGA_MEM s) @ replicate n ?e @ drop (b + n) (VGA_MEM s)"
  from Suc have IH: "fold ?f [0 ..< n] s = s\<lparr>VGA_MEM := ?A n\<rparr>" and lt: "b + n < length (VGA_MEM s)"
    by simp_all
  have len: "b + n < length (?A n)"
    using lt by simp
  have "fold ?f [0 ..< Suc n] s = ?f n (fold ?f [0 ..< n] s)"
    by simp
  also have "\<dots> = ?f n (s\<lparr>VGA_MEM := ?A n\<rparr>)"
    by (simp only: IH)
  also have "\<dots> = s\<lparr>VGA_MEM := (?A n)[b + n := ?e]\<rparr>"
    using store_nat[OF len, of ?e] by (simp add: vga_write_def)
  also have "(?A n)[b + n := ?e] = ?A (Suc n)"
    by (rule fill_step[OF lt])
  finally show ?case .
qed

lemma scroll_step:
  assumes "k + 80 < length m"
  shows "(take k (drop 80 m) @ drop k m)[k := (take k (drop 80 m) @ drop k m) ! (k + 80)]
           = take (Suc k) (drop 80 m) @ drop (Suc k) m"
proof -
  have l: "length (take k (drop 80 m)) = k"
    using assms by simp
  have "(take k (drop 80 m) @ drop k m) ! (k + 80) = m ! (k + 80)"
    using assms by (simp add: nth_append)
  moreover have "drop k m = m ! k # drop (Suc k) m"
    using assms by (simp add: Cons_nth_drop_Suc)
  moreover have "take (Suc k) (drop 80 m) = take k (drop 80 m) @ [m ! (k + 80)]"
    using assms by (simp add: take_Suc_conv_app_nth add.commute)
  ultimately show ?thesis
    using l by (simp add: list_update_append)
qed

lemma scroll_row:
  assumes "c \<le> 80" "r * 80 + 80 + c \<le> length m"
    and "VGA_MEM s = take (r * 80) (drop 80 m) @ drop (r * 80) m"
  shows "fold (\<lambda>col t. vga_write (int r * VGA_WIDTH + int col)
                 (VGA_MEM t ! nat ((int r + 1) * VGA_WIDTH + int col)) t) [0 ..< c] s
         = s\<lparr>VGA_MEM := take (r * 80 + c) (drop 80 m) @ drop (r * 80 + c) m\<rparr>"
  using assms(1,2)
proof (induction c)
  case 0
  then show ?case using assms(3) by simp
next
  case (Suc c)
  let ?f = "\<lambda>col t. vga_write (int r * VGA_WIDTH + int col)
                 (VGA_MEM t ! nat ((int r + 1) * VGA_WIDTH + int col)) t"
  let ?A = "\<lambda>k. take k (drop 80 m) @ drop k m"
  from Suc have IH: "fold ?f [0 ..< c] s = s\<lparr>VGA_MEM := ?A (r * 80 + c)\<rparr>"
    and lt: "r * 80 + c + 80 < length m"
    by simp_all
  have j: "nat (int r * 80 + 80 + int c) = r * 80 + c + 80"
    by linarith
  have len: "r * 80 + c < length (?A (r * 80 + c))"
    using lt by simp
  have "fold ?f [0 ..< Suc c] s = ?f c (fold ?f [0 ..< c] s)"
    by simp
  also have "\<dots> = ?f c (s\<lparr>VGA_MEM := ?A (r * 80 + c)\<rparr>)"
    by (simp only: IH)
  also have "\<dots> = s\<lparr>VGA_MEM := (?A (r * 80 + c))[r * 80 + c := ?A (r * 80 + c) ! (r * 80 + c + 80)]\<rparr>"
    using store_nat[OF len] by (simp add: vga_write_def j)
  also have "(?A (r * 80 + c))[r * 80 + c := ?A (r * 80 + c) ! (r * 80 + c + 80)] = ?A (Suc (r * 80 + c))"
    by (rule scroll_step[OF lt])
  finally show ?case by simp
qed

lemma scroll_rows:
  assumes "length m = 2000" "VGA_MEM s = m"
  shows "R \<le> 24 \<Longrightarrow>
    fold (\<lambda>row. fold (\<lambda>col t. vga_write (int row * VGA_WIDTH + int col)
                 (VGA_MEM t ! nat ((int row + 1) * VGA_WIDTH + int col)) t) [0 ..< 80]) [0 ..< R] s
         = s\<lparr>VGA_MEM := take (R * 80) (drop 80 m) @ drop (R * 80) m\<rparr>"
proof (induction R)
  case 0
  then show ?case using assms by simp
next
  case (Suc R)
  let ?g = "\<lambda>row. fold (\<lambda>col t. vga_write (int row * VGA_WIDTH + int col)
                 (VGA_MEM t ! nat ((int row + 1) * VGA_WIDTH + int col)) t) [0 ..< 80]"
  let ?A = "\<lambda>k. take k (drop 80 m) @ drop k m"
  let ?t = "s\<lparr>VGA_MEM := ?A (R * 80)\<rparr>"
  from Suc have IH: "fold ?g [0 ..< R] s = ?t" and R: "R < 24"
    by simp_all
  have b: "R * 80 + 80 + 80 \<le> length m"
    using R assms(1) by simp
  have "fold ?g [0 ..< Suc R] s = ?g R (fold ?g [0 ..< R] s)"
    by simp
  also have "\<dots> = ?g R ?t"
    by (simp only: IH)
  also have "\<dots> = ?t\<lparr>VGA_MEM := ?A (R * 80 + 80)\<rparr>"
    by (rule scroll_row[OF _ b]) simp_all
  finally show ?case
    by (simp add: add.commute)
qed

lemma vga_scroll_eq:
  assumes "length (VGA_MEM s) = 2000"
  shows "vga_scroll s =
     s\<lparr>VGA_MEM := drop 80 (VGA_MEM s) @ replicate 80 (vga_entry 0x20 (current_color s)),
       cursor_row := 24\<rparr>"
proof -
  let ?m = "VGA_MEM s"
  let ?t = "s\<lparr>VGA_MEM := drop 80 ?m @ drop 1920 ?m\<rparr>"
  have rows: "fold (\<lambda>row. fold (\<lambda>col t. vga_write (int row * VGA_WIDTH + int col)
                 (VGA_MEM t ! nat ((int row + 1) * VGA_WIDTH + int col)) t) [0 ..< 80]) [0 ..< 24] s = ?t"
    using scroll_rows[OF assms refl, of 24] assms by simp
  have "fold (\<lambda>i t. vga_write (int 1920 + int i) (vga_entry 0x20 (current_color t)) t) [0 ..< 80] ?t
     = ?t\<lparr>VGA_MEM := take 1920 (VGA_MEM ?t) @ replicate 80 (vga_entry 0x20 (current_color ?t))
                        @ drop (1920 + 80) (VGA_MEM ?t)\<rparr>"
    by (rule fill_loop) (simp add: assms)
  then have last: "fold (\<lambda>i t. vga_write (1920 + int i) (vga_entry 0x20 (current_color t)) t) [0 ..< 80] ?t
     = s\<lparr>VGA_MEM := drop 80 ?m @ replicate 80 (vga_entry 0x20 (current_color s))\<rparr>"
    using assms by simp
  have e: "vga_scroll s =
     (fold (\<lambda>i t. vga_write (1920 + int i) (vga_entry 0x20 (current_color t)) t) [0 ..< 80]
        (fold (\<lambda>row. fold (\<lambda>col t. vga_write (int row * VGA_WIDTH + int col)
                 (VGA_MEM t ! nat ((int row + 1) * VGA_WIDTH + int col)) t) [0 ..< 80]) [0 ..< 24] s))
     \<lparr>cursor_row := 24\<rparr>"
    by (simp add: vga_scroll_def Let_def)
  show ?thesis
    by (simp only: e rows last)
qed

lemma vga_clear_eq:
  assumes "length (VGA_MEM s) = 2000"
  shows "vga_clear s =
     vga_update_cursor (s\<lparr>VGA_MEM := replicate 2000 (vga_entry 0x20 (current_color s)),
       cursor_row := 0, cursor_col := 0\<rparr>)"
proof -
  have "fold (\<lambda>i t. vga_write (int 0 + int i) (vga_entry 0x20 (current_color t)) t) [0 ..< 2000] s
     = s\<lparr>VGA_MEM := take 0 (VGA_MEM s) @ replicate 2000 (vga_entry 0x20 (current_color s))
                        @ drop (0 + 2000) (VGA_MEM s)\<rparr>"
    by (rule fill_loop) (simp add: assms)
  then have "fold (\<lambda>i t. vga_write (int i) (vga_entry 0x20 (current_color t)) t) [0 ..< 2000] s
     = s\<lparr>VGA_MEM := replicate 2000 (vga_entry 0x20 (current_color s))\<rparr>"
    using assms by simp
  moreover have "vga_clear s =
     vga_update_cursor
       ((fold (\<lambda>i t. vga_write (int i) (vga_entry 0x20 (current_color t)) t) [0 ..< 2000] s)
          \<lparr>cursor_row := 0, cursor_col := 0\<rparr>)"
    by (simp add: vga_clear_def Let_def)
  ultimately show ?thesis
    by (simp only:)
qed

text \<open>What the operations leave alone.\<close>

lemma fold_write_frame:
  "\<exists>m. fold (\<lambda>i t. vga_write (g i) (h i t) t) xs s = s\<lparr>VGA_MEM := m\<rparr>"
proof (induction xs arbitrary: s)
  case Nil
  have "s = s\<lparr>VGA_MEM := VGA_MEM s\<rparr>" by simp
  then show ?case by (metis fold_simps(1))
next
  case (Cons x xs)
  obtain m where "fold (\<lambda>i t. vga_write (g i) (h i t) t) xs (vga_write (g x) (h x s) s)
     = (vga_write (g x) (h x s) s)\<lparr>VGA_MEM := m\<rparr>"
    using Cons[of "vga_write (g x) (h x s) s"] by blast
  then show ?case
    by (intro exI[of _ m]) (simp add: vga_write_def)
qed

lemma fold_fold_write_frame:
  "\<exists>m. fold (\<lambda>j. fold (\<lambda>i t. vga_write (g j i) (h j i t) t) xs) ys s = s\<lparr>VGA_MEM := m\<rparr>"
proof (induction ys arbitrary: s)
  case Nil
  have "s = s\<lparr>VGA_MEM := VGA_MEM s\<rparr>" by simp
  then show ?case by (metis fold_simps(1))
next
  case (Cons y ys)
  obtain m1 where m1: "fold (\<lambda>i t. vga_write (g y i) (h y i t) t) xs s = s\<lparr>VGA_MEM := m1\<rparr>"
    using fold_write_frame[of "g y" "h y" xs s] by blast
  obtain m where "fold (\<lambda>j. fold (\<lambda>i t. vga_write (g j i) (h j i t) t) xs) ys (s\<lparr>VGA_MEM := m1\<rparr>)
     = s\<lparr>VGA_MEM := m1\<rparr>\<lparr>VGA_MEM := m\<rparr>"
    using Cons[of "s\<lparr>VGA_MEM := m1\<rparr>"] by blast
  then show ?case
    by (intro exI[of _ m]) (simp add: m1)
qed

lemma vga_scroll_frame: "\<exists>m. vga_scroll s = s\<lparr>VGA_MEM := m, cursor_row := 24\<rparr>"
proof -
  obtain m1 where m1: "fold (\<lambda>row. fold (\<lambda>col t. vga_write (int row * VGA_WIDTH + int col)
                 (VGA_MEM t ! nat ((int row + 1) * VGA_WIDTH + int col)) t) [0 ..< nat VGA_WIDTH])
                 [0 ..< nat (VGA_HEIGHT - 1)] s = s\<lparr>VGA_MEM := m1\<rparr>"
    using fold_fold_write_frame[of "\<lambda>row col. int row * VGA_WIDTH + int col"
      "\<lambda>row col t. VGA_MEM t ! nat ((int row + 1) * VGA_WIDTH + int col)"] by blast
  obtain m2 where m2: "fold (\<lambda>col t. vga_write ((VGA_HEIGHT - 1) * VGA_WIDTH + int col)
                     (vga_entry 0x20 (current_color t)) t) [0 ..< nat VGA_WIDTH] (s\<lparr>VGA_MEM := m1\<rparr>)
       = s\<lparr>VGA_MEM := m1\<rparr>\<lparr>VGA_MEM := m2\<rparr>"
    using fold_write_frame[of "\<lambda>col. (VGA_HEIGHT - 1) * VGA_WIDTH + int col"
      "\<lambda>col t. vga_entry 0x20 (current_color t)"] by blast
  show ?thesis
    unfolding vga_scroll_def Let_def m1 m2 by (intro exI[of _ m2]) simp
qed

lemma vga_clear_frame:
  "\<exists>m. vga_clear s = vga_update_cursor (s\<lparr>VGA_MEM := m, cursor_row := 0, cursor_col := 0\<rparr>)"
proof -
  obtain m where m: "fold (\<lambda>i t. vga_write (int i) (vga_entry 0x20 (current_color t)) t)
                 [0 ..< nat (VGA_WIDTH * VGA_HEIGHT)] s = s\<lparr>VGA_MEM := m\<rparr>"
    using fold_write_frame[of int "\<lambda>i t. vga_entry 0x20 (current_color t)"] by blast
  show ?thesis
    unfolding vga_clear_def Let_def m by (intro exI[of _ m]) simp
qed

lemma vga_write_fields [simp]:
  "cursor_row (vga_write i v s) = cursor_row s" "cursor_col (vga_write i v s) = cursor_col s"
  "current_color (vga_write i v s) = current_color s" "port_in (vga_write i v s) = port_in s"
  "port_log (vga_write i v s) = port_log s"
  "length (VGA_MEM (vga_write i v s)) = length (VGA_MEM s)"
  by (simp_all add: vga_write_def)

lemma vga_update_cursor_fields [simp]:
  "cursor_row (vga_update_cursor s) = cursor_row s" "cursor_col (vga_update_cursor s) = cursor_col s"
  "current_color (vga_update_cursor s) = current_color s" "port_in (vga_update_cursor s) = port_in s"
  "VGA_MEM (vga_update_cursor s) = VGA_MEM s"
  by (simp_all add: vga_update_cursor_def Let_def outb_def)

lemma vga_scroll_fields [simp]:
  "cursor_row (vga_scroll s) = 24" "cursor_col (vga_scroll s) = cursor_col s"
  "current_color (vga_scroll s) = current_color s" "port_in (vga_scroll s) = port_in s"
  "port_log (vga_scroll s) = port_log s"
  using vga_scroll_frame[of s] by auto

lemma vga_clear_fields [simp]:
  "cursor_row (vga_clear s) = 0" "cursor_col (vga_clear s) = 0"
  "current_color (vga_clear s) = current_color s" "port_in (vga_clear s) = port_in s"
  using vga_clear_frame[of s] by auto

lemma vga_putchar_cursor_valid: "cursor_valid s \<Longrightarrow> cursor_valid (vga_putchar c s)"
  by (auto simp: cursor_valid_def vga_putchar_def Let_def)

lemma vga_putchar_color [simp]: "current_color (vga_putchar c s) = current_color s"
  by (simp add: vga_putchar_def Let_def)

lemma vga_print_cursor_valid: "cursor_valid s \<Longrightarrow> cursor_valid (vga_print str s)"
  by (induction str arbitrary: s) (simp_all add: vga_putchar_cursor_valid)

lemma fold_putchar_cursor_valid: "cursor_valid s \<Longrightarrow> cursor_valid (fold vga_putchar str s)"
  by (induction str arbitrary: s) (simp_all add: vga_putchar_cursor_valid)

lemma vga_print_int_cursor_valid: "cursor_valid s \<Longrightarrow> cursor_valid (vga_print_int n s)"
  by (simp add: vga_print_int_def vga_putchar_cursor_valid fold_putchar_cursor_valid)

lemma vga_print_int2_cursor_valid: "cursor_valid s \<Longrightarrow> cursor_valid (vga_print_int2 n s)"
  by (simp add: vga_print_int2_def vga_putchar_cursor_valid)

lemma vga_clear_cursor_valid: "cursor_valid (vga_clear s)"
  by (simp add: cursor_valid_def)

lemma vga_init_cursor_valid: "cursor_valid (vga_init s)"
  by (simp add: vga_init_def vga_clear_cursor_valid)

lemma cursor_pos_rc:
  "cursor_valid s \<Longrightarrow> cursor_row s = int (cursor_pos s div 80) \<and> cursor_col s = int (cursor_pos s mod 80)"
  unfolding cursor_valid_def cursor_pos_def
  by (cases "cursor_row s"; cases "cursor_col s") (auto simp: nat_add_distrib nat_mult_distrib)

lemma cursor_pos_less: "cursor_valid s \<Longrightarrow> cursor_pos s < 2000"
  unfolding cursor_valid_def cursor_pos_def by linarith

lemma store_cursor:
  assumes "cursor_valid s" "length (VGA_MEM s) = 2000"
  shows "store (cursor_row s * 80 + cursor_col s) v (VGA_MEM s) = (VGA_MEM s)[cursor_pos s := v]"
  using assms unfolding cursor_valid_def cursor_pos_def store_def by auto

lemma putchar_glyph_step:
  assumes "cursor_valid s" "length (VGA_MEM s) = 2000" "glyph c" "cursor_pos s < 1999"
  shows "VGA_MEM (vga_putchar c s) = (VGA_MEM s)[cursor_pos s := vga_entry c (current_color s)]"
    and "cursor_pos (vga_putchar c s) = Suc (cursor_pos s)"
proof -
  have lt: "cursor_row s * 80 + cursor_col s < 1999"
    using assms(4) unfolding cursor_pos_def by linarith
  show "VGA_MEM (vga_putchar c s) = (VGA_MEM s)[cursor_pos s := vga_entry c (current_color s)]"
    using assms(1,3) lt store_cursor[OF assms(1,2)]
    by (auto simp: vga_putchar_def Let_def glyph_def vga_write_def cursor_valid_def)
  show "cursor_pos (vga_putchar c s) = Suc (cursor_pos s)"
    using assms(1,3) lt
    by (auto simp: vga_putchar_def Let_def glyph_def cursor_valid_def cursor_pos_def nat_add_distrib)
qed

lemma putchar_glyph_last:
  assumes "cursor_valid s" "length (VGA_MEM s) = 2000" "glyph c" "cursor_row s = 24" "cursor_col s = 79"
  shows "VGA_MEM (vga_putchar c s) =
           drop 80 ((VGA_MEM s)[1999 := vga_entry c (current_color s)])
             @ replicate 80 (vga_entry 0x20 (current_color s))"
    and "cursor_row (vga_putchar c s) = 24" and "cursor_col (vga_putchar c s) = 0"
proof -
  let ?t = "vga_write (cursor_row s * 80 + cursor_col s) (vga_entry c (current_color s)) s"
  have p: "cursor_pos s = 1999"
    using assms(4,5) by (simp add: cursor_pos_def)
  have m: "VGA_MEM ?t = (VGA_MEM s)[1999 := vga_entry c (current_color s)]"
    using store_cursor[OF assms(1,2)] p by (simp add: vga_write_def)
  have e: "vga_putchar c s = vga_update_cursor (vga_scroll (?t\<lparr>cursor_col := 0, cursor_row := 25\<rparr>))"
    using assms(3,4,5) by (simp add: vga_putchar_def Let_def glyph_def)
  have l: "length (VGA_MEM (?t\<lparr>cursor_col := 0, cursor_row := 25\<rparr>)) = 2000"
    using assms(2) by simp
  show "VGA_MEM (vga_putchar c s) =
           drop 80 ((VGA_MEM s)[1999 := vga_entry c (current_color s)])
             @ replicate 80 (vga_entry 0x20 (current_color s))"
    unfolding e by (simp add: vga_scroll_eq[OF l] m)
  show "cursor_row (vga_putchar c s) = 24" "cursor_col (vga_putchar c s) = 0"
    unfolding e by simp_all
qed

lemma putchar_newline_last:
  assumes "length (VGA_MEM s) = 2000" "cursor_row s = 24"
  shows "VGA_MEM (vga_putchar 0x0A s) =
           drop 80 (VGA_MEM s) @ replicate 80 (vga_entry 0x20 (current_color s))"
    and "cursor_row (vga_putchar 0x0A s) = 24" and "cursor_col (vga_putchar 0x0A s) = 0"
proof -
  have e: "vga_putchar 0x0A s = vga_update_cursor (vga_scroll (s\<lparr>cursor_col := 0, cursor_row := 25\<rparr>))"
    using assms(2) by (simp add: vga_putchar_def Let_def)
  have l: "length (VGA_MEM (s\<lparr>cursor_col := 0, cursor_row := 25\<rparr>)) = 2000"
    using assms(1) by simp
  show "VGA_MEM (vga_putchar 0x0A s) =
           drop 80 (VGA_MEM s) @ replicate 80 (vga_entry 0x20 (current_color s))"
    unfolding e by (simp add: vga_scroll_eq[OF l])
  show "cursor_row (vga_putchar 0x0A s) = 24" "cursor_col (vga_putchar 0x0A s) = 0"
    unfolding e by simp_all
qed

lemma putchar_glyph_wrap:
  assumes "cursor_valid s" "glyph c" "cursor_col s = 79" "cursor_row s < 24"
  shows "cursor_col (vga_putchar c s) = 0 \<and> cursor_row (vga_putchar c s) = cursor_row s + 1"
  using assms by (auto simp: vga_putchar_def Let_def glyph_def cursor_valid_def)

lemma vga_putchar_length:
  "length (VGA_MEM s) = 2000 \<Longrightarrow> length (VGA_MEM (vga_putchar c s)) = 2000"
  by (auto simp: vga_putchar_def Let_def vga_scroll_eq)

lemma vga_print_glyphs:
  assumes "length (VGA_MEM s) = 2000" "cursor_valid s" "list_all glyph cs"
    "cursor_pos s + length cs < 2000"
  shows "VGA_MEM (vga_print cs s) =
           take (cursor_pos s) (VGA_MEM s) @ map (\<lambda>c. vga_entry c (current_color s)) cs
             @ drop (cursor_pos s + length cs) (VGA_MEM s) \<and>
         cursor_valid (vga_print cs s) \<and>
         cursor_pos (vga_print cs s) = cursor_pos s + length cs \<and>
         current_color (vga_print cs s) = current_color s"
  using assms
proof (induction cs arbitrary: s)
  case Nil
  then show ?case by simp
next
  case (Cons c cs)
  let ?t = "vga_putchar c s"
  have p: "cursor_pos s < 1999" and g: "glyph c"
    using Cons.prems by simp_all
  note st = putchar_glyph_step[OF Cons.prems(2,1) g p]
  have v: "cursor_valid ?t"
    by (rule vga_putchar_cursor_valid[OF Cons.prems(2)])
  have l: "length (VGA_MEM ?t) = 2000"
    by (rule vga_putchar_length[OF Cons.prems(1)])
  have "list_all glyph cs" "cursor_pos ?t + length cs < 2000"
    using Cons.prems st(2) by simp_all
  from Cons.IH[OF l v this] have IH:
    "VGA_MEM (vga_print cs ?t) =
       take (cursor_pos ?t) (VGA_MEM ?t) @ map (\<lambda>c. vga_entry c (current_color ?t)) cs
         @ drop (cursor_pos ?t + length cs) (VGA_MEM ?t)"
    "cursor_valid (vga_print cs ?t)"
    "cursor_pos (vga_print cs ?t) = cursor_pos ?t + length cs"
    "current_color (vga_print cs ?t) = current_color ?t"
    by simp_all
  have "take (Suc (cursor_pos s)) ((VGA_MEM s)[cursor_pos s := vga_entry c (current_color s)])
          = take (cursor_pos s) (VGA_MEM s) @ [vga_entry c (current_color s)]"
    using p Cons.prems(1) by (simp add: take_Suc_conv_app_nth)
  with IH st show ?case
    by simp
qed

lemma vga_print_append: "vga_print (xs @ ys) s = vga_print ys (vga_print xs s)"
  by (induction xs arbitrary: s) simp_all

lemma vga_clear_screen:
  assumes "length (VGA_MEM s) = 2000"
  shows "VGA_MEM (vga_clear s) = replicate 2000 (vga_entry 0x20 (current_color s))"
    and "cursor_pos (vga_clear s) = 0"
  by (simp_all add: vga_clear_eq[OF assms] cursor_pos_def)

lemma cursor_of_pos:
  assumes "cursor_valid s" "cursor_pos s = p"
  shows "cursor_row s = int (p div 80)" "cursor_col s = int (p mod 80)"
  using cursor_pos_rc[OF assms(1)] assms(2) by simp_all

lemma vga_print_81:
  assumes "length (VGA_MEM s) = 2000" "list_all glyph cs" "length cs = 81"
  shows "VGA_MEM (vga_print cs (vga_clear s)) =
           map (\<lambda>c. vga_entry c (current_color s)) cs
             @ replicate 1919 (vga_entry 0x20 (current_color s))"
    and "cursor_row (vga_print cs (vga_clear s)) = 1"
    and "cursor_col (vga_print cs (vga_clear s)) = 1"
proof -
  let ?t = "vga_clear s"
  have l: "length (VGA_MEM ?t) = 2000"
    by (simp add: vga_clear_screen(1)[OF assms(1)])
  have "cursor_pos ?t + length cs < 2000"
    by (simp add: vga_clear_screen(2)[OF assms(1)] assms(3))
  from vga_print_glyphs[OF l vga_clear_cursor_valid assms(2) this]
  have r: "VGA_MEM (vga_print cs ?t) =
           take (cursor_pos ?t) (VGA_MEM ?t) @ map (\<lambda>c. vga_entry c (current_color ?t)) cs
             @ drop (cursor_pos ?t + length cs) (VGA_MEM ?t)"
    "cursor_valid (vga_print cs ?t)" "cursor_pos (vga_print cs ?t) = cursor_pos ?t + length cs"
    by simp_all
  show "VGA_MEM (vga_print cs ?t) =
           map (\<lambda>c. vga_entry c (current_color s)) cs
             @ replicate 1919 (vga_entry 0x20 (current_color s))"
    using r(1) by (simp add: vga_clear_screen[OF assms(1)] assms(3))
  have "cursor_pos (vga_print cs ?t) = 81"
    using r(3) by (simp add: vga_clear_screen[OF assms(1)] assms(3))
  from cursor_of_pos[OF r(2) this]
  show "cursor_row (vga_print cs ?t) = 1" "cursor_col (vga_print cs ?t) = 1"
    by simp_all
qed

lemma vga_print_2001:
  assumes "length (VGA_MEM s) = 2000" "list_all glyph cs" "length cs = 2001"
  shows "VGA_MEM (vga_print cs (vga_clear s)) =
           map (\<lambda>c. vga_entry c (current_color s)) (drop 80 cs)
             @ replicate 79 (vga_entry 0x20 (current_color s))"
    and "cursor_row (vga_print cs (vga_clear s)) = 24"
    and "cursor_col (vga_print cs (vga_clear s)) = 1"
proof -
  let ?e = "\<lambda>c. vga_entry c (current_color s)"
  let ?b = "vga_entry 0x20 (current_color s)"
  define a where "a = take 1999 cs"
  define x where "x = cs ! 1999"
  define y where "y = cs ! 2000"
  have cs: "cs = a @ [x, y]"
  proof -
    have "cs = take 1999 cs @ drop 1999 cs" by simp
    moreover have "drop 1999 cs = cs ! 1999 # drop 2000 cs"
      using assms(3) Cons_nth_drop_Suc[of 1999 cs] by simp
    moreover have "drop 2000 cs = cs ! 2000 # drop 2001 cs"
      using assms(3) Cons_nth_drop_Suc[of 2000 cs] by simp
    ultimately show ?thesis
      using assms(3) by (simp add: a_def x_def y_def)
  qed
  have la: "length a = 1999"
    using assms(3) by (simp add: a_def)
  have g: "list_all glyph a" "glyph x" "glyph y"
    using assms(2) by (simp_all add: cs)
  let ?t = "vga_clear s"
  let ?s1 = "vga_print a ?t"
  let ?s2 = "vga_putchar x ?s1"
  let ?s3 = "vga_putchar y ?s2"
  have e: "vga_print cs ?t = ?s3"
    by (simp add: cs vga_print_append)
  have l: "length (VGA_MEM ?t) = 2000"
    by (simp add: vga_clear_screen(1)[OF assms(1)])
  have "cursor_pos ?t + length a < 2000"
    by (simp add: vga_clear_screen(2)[OF assms(1)] la)
  from vga_print_glyphs[OF l vga_clear_cursor_valid g(1) this]
  have r1: "VGA_MEM ?s1 = map ?e a @ [?b]" "cursor_valid ?s1" "cursor_pos ?s1 = 1999"
    "current_color ?s1 = current_color s"
    by (simp_all add: vga_clear_screen[OF assms(1)] la)
  have l1: "length (VGA_MEM ?s1) = 2000"
    using r1(1) la by simp
  from cursor_of_pos[OF r1(2,3)] have rc1: "cursor_row ?s1 = 24" "cursor_col ?s1 = 79"
    by simp_all
  from putchar_glyph_last[OF r1(2) l1 g(2) rc1]
  have r2: "VGA_MEM ?s2 = drop 80 (map ?e a @ [?e x]) @ replicate 80 ?b"
    "cursor_row ?s2 = 24" "cursor_col ?s2 = 0"
    using la by (simp_all add: r1 list_update_append)
  have v2: "cursor_valid ?s2"
    by (rule vga_putchar_cursor_valid[OF r1(2)])
  have l2: "length (VGA_MEM ?s2) = 2000"
    by (rule vga_putchar_length[OF l1])
  have p2: "cursor_pos ?s2 = 1920"
    by (simp add: cursor_pos_def r2)
  have c2: "current_color ?s2 = current_color s"
    by (simp add: r1)
  from putchar_glyph_step[OF v2 l2 g(3)] p2
  have r3: "VGA_MEM ?s3 = (VGA_MEM ?s2)[1920 := ?e y]" "cursor_pos ?s3 = 1921"
    by (simp_all add: r1(4))
  have v3: "cursor_valid ?s3"
    by (rule vga_putchar_cursor_valid[OF v2])
  have "replicate 80 ?b = ?b # replicate 79 ?b"
    by (simp add: replicate_Suc[symmetric] del: replicate_Suc)
  then have "(drop 80 (map ?e a @ [?e x]) @ replicate 80 ?b)[1920 := ?e y]
          = drop 80 (map ?e a @ [?e x]) @ ?e y # replicate 79 ?b"
    using la by (simp add: list_update_append)
  moreover have "map ?e (drop 80 cs) = drop 80 (map ?e a @ [?e x]) @ [?e y]"
    using la by (simp add: cs drop_map)
  ultimately show "VGA_MEM (vga_print cs ?t) = map ?e (drop 80 cs) @ replicate 79 ?b"
    by (simp add: e r3 r2)
  from cursor_of_pos[OF v3 r3(2)]
  show "cursor_row (vga_print cs ?t) = 24" "cursor_col (vga_print cs ?t) = 1"
    by (simp_all add: e)
qed

section \<open>Writing to the screen\<close>

lemma pc_screen_facts:
  "length (VGA_MEM pc_screen) = 2000" "current_color pc_screen = 0x07"
  by (simp_all add: pc_screen_def)

lemma glyph_x: "list_all glyph (replicate n 0x78)"
  by (simp add: list_all_iff glyph_def)

lemma entries_7: "vga_entry 0x78 0x07 = 0x0778" "vga_entry 0x20 0x07 = 0x0720"
  by (simp_all add: vga_entry_def)

lemma vga_print_color [simp]: "current_color (vga_print cs s) = current_color s"
  by (induction cs arbitrary: s) simp_all

lemma screen_2001_x:
  "VGA_MEM (vga_print (replicate 2001 0x78) (vga_clear pc_screen))
     = replicate 1921 0x0778 @ replicate 79 0x0720"
  using vga_print_2001(1)[OF pc_screen_facts(1) glyph_x[of 2001]]
  by (simp add: pc_screen_facts entries_7)

text \<open>
  Claim C5 as stated fails in its second half: after 2001 characters every one of the
  25 rows still shows content, not exactly one.
\<close>

theorem C5_rows_after_2001_counterexample:
  "rows_with_content (vga_print (replicate 2001 0x78) (vga_clear pc_screen)) = [0 ..< 25] \<and>
   length (rows_with_content (vga_print (replicate 2001 0x78) (vga_clear pc_screen))) \<noteq> 1"
proof -
  let ?s = "vga_print (replicate 2001 0x78) (vga_clear pc_screen)"
  have "row_cells r ?s \<noteq> replicate 80 (vga_entry 0x20 (current_color ?s))" if "r < 25" for r
  proof -
    have "r * 80 < 1921"
      using that by simp
    then have "row_cells r ?s ! 0 = 0x0778"
      by (simp add: row_cells_def screen_2001_x nth_append)
    moreover have "replicate 80 (vga_entry 0x20 (current_color ?s)) ! 0 = 0x0720"
      by (simp add: pc_screen_facts entries_7)
    ultimately show ?thesis
      by auto
  qed
  then have "rows_with_content ?s = [0 ..< 25]"
    unfolding rows_with_content_def by (intro filter_True) simp
  then show ?thesis
    by simp
qed

text \<open>
  Claim C5, as amended.  From a cleared screen, 81 glyph characters leave the cursor at
  column 1 of row 1, row 0 holds the first 80 of them and nothing has scrolled.  2001
  glyph characters scroll the screen exactly once: the first 80 characters are gone,
  rows 0 to 23 hold the characters 81 to 2000, the last row holds the 2001st character
  followed by 79 blanks, and the cursor is at column 1 of row 24.
\<close>

theorem C5_wrap_and_scroll:
  assumes "length (VGA_MEM s) = 2000" and "list_all glyph cs"
  shows "(length cs = 81 \<longrightarrow>
            cursor_row (vga_print cs (vga_clear s)) = 1 \<and>
            cursor_col (vga_print cs (vga_clear s)) = 1 \<and>
            row_cells 0 (vga_print cs (vga_clear s))
              = map (\<lambda>c. vga_entry c (current_color s)) (take 80 cs) \<and>
            VGA_MEM (vga_print cs (vga_clear s))
              = map (\<lambda>c. vga_entry c (current_color s)) cs
                  @ replicate 1919 (vga_entry 0x20 (current_color s))) \<and>
         (length cs = 2001 \<longrightarrow>
            cursor_row (vga_print cs (vga_clear s)) = 24 \<and>
            cursor_col (vga_print cs (vga_clear s)) = 1 \<and>
            VGA_MEM (vga_print cs (vga_clear s))
              = map (\<lambda>c. vga_entry c (current_color s)) (drop 80 cs)
                  @ replicate 79 (vga_entry 0x20 (current_color s)))"
proof (intro conjI impI)
  assume l: "length cs = 81"
  note r = vga_print_81[OF assms l]
  show "cursor_row (vga_print cs (vga_clear s)) = 1" "cursor_col (vga_print cs (vga_clear s)) = 1"
    "VGA_MEM (vga_print cs (vga_clear s))
              = map (\<lambda>c. vga_entry c (current_color s)) cs
                  @ replicate 1919 (vga_entry 0x20 (current_color s))"
    by (rule r)+
  show "row_cells 0 (vga_print cs (vga_clear s))
              = map (\<lambda>c. vga_entry c (current_color s)) (take 80 cs)"
    using l by (simp add: row_cells_def r(1) take_map)
next
  assume l: "length cs = 2001"
  note r = vga_print_2001[OF assms l]
  show "cursor_row (vga_print cs (vga_clear s)) = 24" "cursor_col (vga_print cs (vga_clear s)) = 1"
    "VGA_MEM (vga_print cs (vga_clear s))
              = map (\<lambda>c. vga_entry c (current_color s)) (drop 80 cs)
                  @ replicate 79 (vga_entry 0x20 (current_color s))"
    by (rule r)+
qed

text \<open>The theorem for 81 and for 2001 letters \<open>x\<close> on the machine \<open>pc_screen\<close>.\<close>

theorem C5_wrap_and_scroll_witness:
  "cursor_row (vga_print (replicate 81 0x78) (vga_clear pc_screen)) = 1 \<and>
   cursor_col (vga_print (replicate 81 0x78) (vga_clear pc_screen)) = 1 \<and>
   row_cells 0 (vga_print (replicate 81 0x78) (vga_clear pc_screen)) = replicate 80 0x0778 \<and>
   cursor_row (vga_print (replicate 2001 0x78) (vga_clear pc_screen)) = 24 \<and>
   cursor_col (vga_print (replicate 2001 0x78) (vga_clear pc_screen)) = 1 \<and>
   VGA_MEM (vga_print (replicate 2001 0x78) (vga_clear pc_screen))
     = replicate 1921 0x0778 @ replicate 79 0x0720"
  using C5_wrap_and_scroll[OF pc_screen_facts(1) glyph_x[of 81]]
    C5_wrap_and_scroll[OF pc_screen_facts(1) glyph_x[of 2001]]
  by (simp add: pc_screen_facts entries_7)

lemma vga_flash_frame: "\<exists>m. vga_flash s = s\<lparr>VGA_MEM := m\<rparr>"
proof -
  let ?f = "\<lambda>i t. vga_write (int i) (flash_entry (VGA_MEM t ! i)) t"
  obtain m1 where m1: "fold ?f [0 ..< nat (VGA_WIDTH * VGA_HEIGHT)] s = s\<lparr>VGA_MEM := m1\<rparr>"
    using fold_write_frame[of int "\<lambda>i t. flash_entry (VGA_MEM t ! i)"] by blast
  obtain m2 where m2: "fold ?f [0 ..< nat (VGA_WIDTH * VGA_HEIGHT)] (s\<lparr>VGA_MEM := m1\<rparr>)
      = s\<lparr>VGA_MEM := m1\<rparr>\<lparr>VGA_MEM := m2\<rparr>"
    using fold_write_frame[of int "\<lambda>i t. flash_entry (VGA_MEM t ! i)"] by blast
  show ?thesis
    unfolding vga_flash_def Let_def m1 m2 by (intro exI[of _ m2]) simp
qed

lemma vga_flash_cursor_valid: "cursor_valid s \<Longrightarrow> cursor_valid (vga_flash s)"
  using vga_flash_frame[of s] by (auto simp: cursor_valid_def)

lemma vga_set_color_cursor_valid: "cursor_valid s \<Longrightarrow> cursor_valid (vga_set_color fg bg s)"
  by (simp add: cursor_valid_def vga_set_color_def)

text \<open>
  Claim C4.  \<open>vga_init\<close> and \<open>vga_clear\<close> establish a valid cursor, and \<open>vga_putchar\<close>
  (for every character), \<open>vga_print\<close>, \<open>vga_newline\<close>, \<open>vga_print_int\<close>,
  \<open>vga_print_int2\<close>, \<open>vga_set_color\<close> and \<open>vga_flash\<close> keep it valid.  A glyph written in column 79 moves the cursor to
  column 0 of the next row.  When the cursor would leave row 24 (a newline in row 24,
  or a glyph in its last column), the rows move up by one, the last row is blanked and
  the cursor stays in row 24.
\<close>

theorem C4_cursor_valid:
  assumes "cursor_valid s"
  shows "cursor_valid (vga_init t) \<and> cursor_valid (vga_clear t) \<and>
         cursor_valid (vga_putchar c s) \<and> cursor_valid (vga_print str s) \<and>
         cursor_valid (vga_newline s) \<and> cursor_valid (vga_print_int n s) \<and>
         cursor_valid (vga_print_int2 k s) \<and>
         cursor_valid (vga_set_color fg bg s) \<and> cursor_valid (vga_flash s) \<and>
         (glyph c \<and> cursor_col s = 79 \<and> cursor_row s < 24 \<longrightarrow>
            cursor_col (vga_putchar c s) = 0 \<and>
            cursor_row (vga_putchar c s) = cursor_row s + 1) \<and>
         (length (VGA_MEM s) = 2000 \<and> cursor_row s = 24 \<and>
            (c = 0x0A \<or> glyph c \<and> cursor_col s = 79) \<longrightarrow>
            cursor_row (vga_putchar c s) = 24 \<and> cursor_col (vga_putchar c s) = 0 \<and>
            VGA_MEM (vga_putchar c s) =
              drop 80 (if c = 0x0A then VGA_MEM s
                       else (VGA_MEM s)[1999 := vga_entry c (current_color s)])
                @ replicate 80 (vga_entry 0x20 (current_color s)))"
proof -
  have "cursor_row (vga_putchar c s) = 24 \<and> cursor_col (vga_putchar c s) = 0 \<and>
            VGA_MEM (vga_putchar c s) =
              drop 80 (if c = 0x0A then VGA_MEM s
                       else (VGA_MEM s)[1999 := vga_entry c (current_color s)])
                @ replicate 80 (vga_entry 0x20 (current_color s))"
    if l: "length (VGA_MEM s) = 2000" and r: "cursor_row s = 24"
      and c: "c = 0x0A \<or> glyph c \<and> cursor_col s = 79"
  proof (cases "c = 0x0A")
    case True
    with putchar_newline_last[OF l r] show ?thesis
      by simp
  next
    case False
    with c have g: "glyph c" and k: "cursor_col s = 79"
      by simp_all
    from False putchar_glyph_last[OF assms l g r k] show ?thesis
      by simp
  qed
  moreover have "cursor_col (vga_putchar c s) = 0 \<and> cursor_row (vga_putchar c s) = cursor_row s + 1"
    if "glyph c" "cursor_col s = 79" "cursor_row s < 24"
    using putchar_glyph_wrap[OF assms that] .
  ultimately show ?thesis
    using assms
    by (simp add: vga_init_cursor_valid vga_clear_cursor_valid vga_putchar_cursor_valid
        vga_print_cursor_valid vga_print_int_cursor_valid vga_print_int2_cursor_valid
        vga_set_color_cursor_valid vga_flash_cursor_valid vga_newline_def)
qed

text \<open>The theorem at the last cell of the screen and at the end of the first row.\<close>

theorem C4_cursor_valid_witness:
  "cursor_valid pc_last_cell \<and> cursor_valid (vga_putchar 0x41 pc_last_cell) \<and>
   cursor_row (vga_putchar 0x41 pc_last_cell) = 24 \<and>
   cursor_col (vga_putchar 0x41 pc_last_cell) = 0 \<and>
   VGA_MEM (vga_putchar 0x41 pc_last_cell) =
     drop 80 ((replicate 2000 0)[1999 := 0x0741]) @ replicate 80 0x0720 \<and>
   cursor_valid pc_row_end \<and>
   cursor_col (vga_putchar 0x41 pc_row_end) = 0 \<and>
   cursor_row (vga_putchar 0x41 pc_row_end) = 1"
proof -
  have v: "cursor_valid pc_last_cell" "cursor_valid pc_row_end"
    by (simp_all add: cursor_valid_def pc_last_cell_def pc_row_end_def pc_screen_def)
  have e: "vga_entry 0x41 0x07 = 0x0741"
    by (simp add: vga_entry_def)
  from C4_cursor_valid[OF v(1), of pc_screen "0x41" "[]" 0 0 7 0]
    C4_cursor_valid[OF v(2), of pc_screen "0x41" "[]" 0 0 7 0] v
  show ?thesis
    by (simp add: glyph_def pc_last_cell_def pc_row_end_def pc_screen_def e entries_7)
qed

section \<open>Colours and digits\<close>

lemma set_color_bits:
  fixes fg bg :: u8
  shows "drop_bit 4 (ucast (push_bit 4 (ucast bg :: u32) OR (ucast fg AND 0x0F)) :: u8) AND 0x07 = bg AND 0x07"
    and "(ucast (push_bit 4 (ucast bg :: u32) OR (ucast fg AND 0x0F)) :: u8) AND 0x0F = fg AND 0x0F"
proof -
  have m: "(0x0F :: u32) = mask 4" "(0x0F :: u8) = mask 4" "(0x07 :: u8) = mask 3"
    by (simp_all add: mask_eq_exp_minus_1)
  show "drop_bit 4 (ucast (push_bit 4 (ucast bg :: u32) OR (ucast fg AND 0x0F)) :: u8) AND 0x07 = bg AND 0x07"
    unfolding m
    by (rule bit_word_eqI) (auto simp: bit_simps)
  show "(ucast (push_bit 4 (ucast bg :: u32) OR (ucast fg AND 0x0F)) :: u8) AND 0x0F = fg AND 0x0F"
    unfolding m
    by (rule bit_word_eqI) (auto simp: bit_simps)
qed

lemma vga_entry_bytes: "ucast (drop_bit 8 (vga_entry c a)) = a" "ucast (vga_entry c a) = c"
  unfolding vga_entry_def
  by (rule bit_word_eqI; auto simp: bit_simps dest: bit_imp_le_length)+

lemma tx_bytes_append: "tx_bytes (xs @ ys) = tx_bytes xs @ tx_bytes ys"
  by (induction xs rule: tx_bytes.induct) simp_all

lemma uart_tx_wait_tx:
  "uart_tx_wait u = Some u' \<Longrightarrow> tx_bytes (mmio_log u') = tx_bytes (mmio_log u)"
proof (induction "length (mmio_in u)" arbitrary: u rule: less_induct)
  case less
  show ?case
  proof (cases "mmio_in u")
    case Nil
    then have "uart_tx_wait u = None"
      by (subst uart_tx_wait.simps) (simp add: mmio_read_def)
    with less.prems show ?thesis
      by simp
  next
    case (Cons fr ins)
    let ?t = "u\<lparr>mmio_in := ins, mmio_log := mmio_log u @ [Rd UART_FR fr]\<rparr>"
    have step: "uart_tx_wait u = (if fr AND FR_TXFF \<noteq> 0 then uart_tx_wait ?t else Some ?t)"
      by (subst uart_tx_wait.simps) (simp add: mmio_read_def Cons)
    show ?thesis
    proof (cases "fr AND FR_TXFF \<noteq> 0")
      case True
      with step less.prems have "uart_tx_wait ?t = Some u'"
        by simp
      then have "tx_bytes (mmio_log u') = tx_bytes (mmio_log ?t)"
        using less.hyps[of ?t] Cons by simp
      then show ?thesis
        by (simp add: tx_bytes_append)
    next
      case False
      with step less.prems have "u' = ?t"
        by simp
      then show ?thesis
        by (simp add: tx_bytes_append)
    qed
  qed
qed

lemma uart_putchar_tx:
  "uart_putchar c u = Some u' \<Longrightarrow> tx_bytes (mmio_log u') = tx_bytes (mmio_log u) @ [ucast c]"
  by (auto simp: uart_putchar_def mmio_write_def tx_bytes_append
      split: option.splits dest: uart_tx_wait_tx)

lemma uart_puts_tx:
  "uart_puts str u = Some u' \<Longrightarrow> 0x0A \<notin> set str \<Longrightarrow>
     tx_bytes (mmio_log u') = tx_bytes (mmio_log u) @ map ucast str"
proof (induction str arbitrary: u)
  case Nil
  then show ?case by simp
next
  case (Cons c str)
  from Cons.prems obtain t where t: "uart_putchar c u = Some t" and r: "uart_puts str t = Some u'"
    by (auto split: bind_splits)
  from Cons.IH[OF r] Cons.prems(2) uart_putchar_tx[OF t] show ?case
    by simp
qed

lemma vga_print_int2_rpi3_tx:
  "vga_print_int2_rpi3 n u = Some u' \<Longrightarrow>
     tx_bytes (mmio_log u') =
       tx_bytes (mmio_log u) @ [ucast (0x30 + n div 10), ucast (0x30 + n mod 10)]"
  by (auto simp: vga_print_int2_rpi3_def split: bind_splits dest!: uart_putchar_tx)

lemma ansi_fg_no_newline: "fg < 16 \<Longrightarrow> 0x0A \<notin> set (ansi_fg ! unat (fg :: u8))"
proof -
  assume "fg < 16"
  then have "unat fg < 16"
    by (simp add: word_less_nat_alt)
  moreover have "length ansi_fg = 16"
    by (simp add: ansi_fg_def)
  ultimately have "ansi_fg ! unat fg \<in> set ansi_fg"
    by (intro nth_mem) simp
  moreover have "\<forall>code \<in> set ansi_fg. 0x0A \<notin> set code"
    by (simp add: ansi_fg_def bytes_of_def)
  ultimately show ?thesis
    by blast
qed

lemma ascii_digit_glyph: "ascii_digit c \<Longrightarrow> glyph c"
  unfolding ascii_digit_def glyph_def by auto

lemma two_digits:
  fixes n :: u8
  assumes "n \<le> 99"
  shows "ascii_digit (0x30 + n div 10)" "ascii_digit (0x30 + n mod 10)"
    "decimal_value [0x30 + n div 10, 0x30 + n mod 10] = unat n"
    "glyph (0x30 + n div 10)" "glyph (0x30 + n mod 10)"
proof -
  have n: "unat n \<le> 99"
    using assms by (simp add: word_le_nat_alt)
  have d: "unat (n div 10) = unat n div 10" and m: "unat (n mod 10) = unat n mod 10"
    by (simp_all add: unat_div unat_mod)
  have d1: "unat (0x30 + n div 10) = 48 + unat n div 10"
    using n by (simp add: unat_word_ariths d)
  have d2: "unat (0x30 + n mod 10) = 48 + unat n mod 10"
    using n by (simp add: unat_word_ariths m)
  show a: "ascii_digit (0x30 + n div 10)" "ascii_digit (0x30 + n mod 10)"
    using n by (simp_all add: ascii_digit_def word_le_nat_alt d1 d2)
  show "decimal_value [0x30 + n div 10, 0x30 + n mod 10] = unat n"
    by (simp add: decimal_value_def d1 d2)
  show "glyph (0x30 + n div 10)" "glyph (0x30 + n mod 10)"
    using a by (simp_all add: ascii_digit_glyph)
qed

lemma set_color_blink_bit:
  "bit (current_color (vga_set_color fg bg s)) 7 = bit bg 3"
  by (simp add: vga_set_color_def bit_simps)

text \<open>
  Claim C8.  After \<open>vga_set_color fg bg\<close> on the frame buffer, bits 4 to 6 of the
  attribute are \<open>bg\<close> reduced to 3 bits and bits 0 to 3 are \<open>fg\<close> reduced to 4 bits;
  the attribute stays in force while text is printed, and a glyph written next is
  stored with it as the high byte of its cell.  On the serial console the result does
  not depend on \<open>bg\<close>: for \<open>fg < 16\<close> the bytes sent are the escape code
  \<open>ansi_fg[fg]\<close>, otherwise nothing is sent.
\<close>

theorem C8_set_color:
  "drop_bit 4 (current_color (vga_set_color fg bg s)) AND 0x07 = bg AND 0x07 \<and>
   current_color (vga_set_color fg bg s) AND 0x0F = fg AND 0x0F \<and>
   current_color (vga_print str (vga_set_color fg bg s)) = current_color (vga_set_color fg bg s) \<and>
   (cursor_valid s \<and> length (VGA_MEM s) = 2000 \<and> glyph c \<and> cursor_pos s < 1999 \<longrightarrow>
      VGA_MEM (vga_putchar c (vga_set_color fg bg s)) ! cursor_pos s
        = vga_entry c (current_color (vga_set_color fg bg s))) \<and>
   ucast (drop_bit 8 (vga_entry c a)) = a \<and>
   vga_set_color_rpi3 fg bg u = vga_set_color_rpi3 fg bg' u \<and>
   (fg < 16 \<and> vga_set_color_rpi3 fg bg u = Some u' \<longrightarrow>
      tx_bytes (mmio_log u') = tx_bytes (mmio_log u) @ map ucast (ansi_fg ! unat fg)) \<and>
   (\<not> fg < 16 \<longrightarrow> vga_set_color_rpi3 fg bg u = Some u)"
proof -
  let ?t = "vga_set_color fg bg s"
  have "VGA_MEM (vga_putchar c ?t) ! cursor_pos s = vga_entry c (current_color ?t)"
    if "cursor_valid s" "length (VGA_MEM s) = 2000" "glyph c" "cursor_pos s < 1999"
  proof -
    have v: "cursor_valid ?t" and l: "length (VGA_MEM ?t) = 2000" and p: "cursor_pos ?t = cursor_pos s"
      using that by (simp_all add: vga_set_color_def cursor_valid_def cursor_pos_def)
    from putchar_glyph_step(1)[OF v l that(3)] p that(4) l show ?thesis
      by (simp add: vga_set_color_def)
  qed
  moreover have "tx_bytes (mmio_log u') = tx_bytes (mmio_log u) @ map ucast (ansi_fg ! unat fg)"
    if "fg < 16" "vga_set_color_rpi3 fg bg u = Some u'"
    using that uart_puts_tx[OF _ ansi_fg_no_newline[OF that(1)], of u u']
    by (simp add: vga_set_color_rpi3_def)
  ultimately show ?thesis
    using set_color_bits[of bg fg] vga_entry_bytes(1)[of c a]
    by (simp add: vga_set_color_def vga_set_color_rpi3_def)
qed

text \<open>
  The theorem for white on blue (\<open>fg = 15\<close>, \<open>bg = 1\<close>): the attribute is 0x1F, and
  the serial console receives \<open>ESC [ 9 7 m\<close>.
\<close>

theorem C8_set_color_witness:
  "current_color (vga_set_color 15 1 pc_screen) = 0x1F \<and>
   VGA_MEM (vga_putchar 0x41 (vga_set_color 15 1 pc_screen)) ! 0 = 0x1F41 \<and>
   (\<exists>u'. vga_set_color_rpi3 15 1 rpi_tx_ready = Some u' \<and>
      tx_bytes (mmio_log u') = [0x1B, 0x5B, 0x39, 0x37, 0x6D])"
proof -
  have v: "cursor_valid pc_screen" "length (VGA_MEM pc_screen) = 2000" "glyph 0x41"
    "cursor_pos pc_screen = 0"
    by (simp_all add: cursor_valid_def pc_screen_def glyph_def cursor_pos_def)
  have "vga_set_color_rpi3 15 1 rpi_tx_ready \<noteq> None"
    by code_simp
  then obtain u' where u': "vga_set_color_rpi3 15 1 rpi_tx_ready = Some u'"
    by blast
  have c: "current_color (vga_set_color 15 1 pc_screen) = 0x1F"
    by (simp add: vga_set_color_def)
  have a: "ansi_fg ! unat (15 :: u8) = [0x1B, 0x5B, 0x39, 0x37, 0x6D]"
    by (simp add: ansi_fg_def bytes_of_def)
  from C8_set_color[of 15 1 pc_screen "[]" "0x41" 0 rpi_tx_ready 1 u'] v u' c a
  have "VGA_MEM (vga_putchar 0x41 (vga_set_color 15 1 pc_screen)) ! 0 = 0x1F41"
    "tx_bytes (mmio_log u') = [0x1B, 0x5B, 0x39, 0x37, 0x6D]"
    by (simp_all add: vga_entry_def rpi_tx_ready_def)
  with c u' show ?thesis
    by blast
qed

text \<open>
  Claim C9.  For \<open>n \<le> 99\<close> the two characters that \<open>vga_print_int2\<close> writes are ASCII
  digits whose decimal value is \<open>n\<close>.  On the frame buffer the call is the printing of
  this two-character string, which fills the two cells from the cursor on (when they
  are not the last cells of the screen); on the serial console exactly these two bytes
  are sent when the call returns.
\<close>

theorem C9_print_two_digit:
  assumes "n \<le> 99"
  shows "ascii_digit (0x30 + n div 10) \<and> ascii_digit (0x30 + n mod 10) \<and>
         decimal_value [0x30 + n div 10, 0x30 + n mod 10] = unat n \<and>
         vga_print_int2 n s = vga_print [0x30 + n div 10, 0x30 + n mod 10] s \<and>
         (cursor_valid s \<and> length (VGA_MEM s) = 2000 \<and> cursor_pos s + 2 < 2000 \<longrightarrow>
            VGA_MEM (vga_print_int2 n s) =
              take (cursor_pos s) (VGA_MEM s)
                @ [vga_entry (0x30 + n div 10) (current_color s),
                   vga_entry (0x30 + n mod 10) (current_color s)]
                @ drop (cursor_pos s + 2) (VGA_MEM s)) \<and>
         (vga_print_int2_rpi3 n u = Some u' \<longrightarrow>
            tx_bytes (mmio_log u') =
              tx_bytes (mmio_log u) @ [ucast (0x30 + n div 10), ucast (0x30 + n mod 10)])"
proof -
  note d = two_digits[OF assms]
  have e: "vga_print_int2 n s = vga_print [0x30 + n div 10, 0x30 + n mod 10] s"
    by (simp add: vga_print_int2_def)
  have "VGA_MEM (vga_print_int2 n s) =
              take (cursor_pos s) (VGA_MEM s)
                @ [vga_entry (0x30 + n div 10) (current_color s),
                   vga_entry (0x30 + n mod 10) (current_color s)]
                @ drop (cursor_pos s + 2) (VGA_MEM s)"
    if "cursor_valid s" "length (VGA_MEM s) = 2000" "cursor_pos s + 2 < 2000"
    using vga_print_glyphs[OF that(2,1), of "[0x30 + n div 10, 0x30 + n mod 10]"] d(4,5) that(3)
    unfolding e by simp
  then show ?thesis
    using d(1,2,3) e vga_print_int2_rpi3_tx[of n u u'] by blast
qed

text \<open>The theorem for \<open>n = 7\<close>: the characters are \<open>'0'\<close> and \<open>'7'\<close>.\<close>

theorem C9_print_two_digit_witness:
  "ascii_digit 0x30 \<and> ascii_digit 0x37 \<and> decimal_value [0x30, 0x37] = 7 \<and>
   vga_print_int2 7 pc_screen = vga_print [0x30, 0x37] pc_screen \<and>
   take 2 (VGA_MEM (vga_print_int2 7 pc_screen)) = [0x0730, 0x0737] \<and>
   (\<exists>u'. vga_print_int2_rpi3 7 rpi_tx_ready = Some u' \<and> tx_bytes (mmio_log u') = [0x30, 0x37])"
proof -
  have n: "(7 :: u8) \<le> 99" "(0x30 :: u8) + 7 div 10 = 0x30" "(0x30 :: u8) + 7 mod 10 = 0x37"
    by simp_all
  have v: "cursor_valid pc_screen" "length (VGA_MEM pc_screen) = 2000" "cursor_pos pc_screen = 0"
    "current_color pc_screen = 0x07"
    by (simp_all add: cursor_valid_def pc_screen_def cursor_pos_def)
  have "vga_print_int2_rpi3 7 rpi_tx_ready \<noteq> None"
    by code_simp
  then obtain u' where u': "vga_print_int2_rpi3 7 rpi_tx_ready = Some u'"
    by blast
  note r = C9_print_two_digit[OF n(1), of pc_screen rpi_tx_ready u', unfolded n(2,3)]
  have c: "cursor_valid pc_screen \<and> length (VGA_MEM pc_screen) = 2000 \<and>
           cursor_pos pc_screen + 2 < 2000"
    using v by simp
  from r c have m: "VGA_MEM (vga_print_int2 7 pc_screen) =
      take (cursor_pos pc_screen) (VGA_MEM pc_screen)
        @ [vga_entry 0x30 (current_color pc_screen), vga_entry 0x37 (current_color pc_screen)]
        @ drop (cursor_pos pc_screen + 2) (VGA_MEM pc_screen)"
    by blast
  have "take 2 (VGA_MEM (vga_print_int2 7 pc_screen)) = [0x0730, 0x0737]"
    unfolding m by (simp add: v vga_entry_def)
  moreover from r u' have "tx_bytes (mmio_log u') = [0x30, 0x37]"
    by (simp add: rpi_tx_ready_def)
  moreover from r have "decimal_value [0x30, 0x37] = 7"
    by simp
  ultimately show ?thesis
    using r u' by blast
qed

section \<open>Reading a line\<close>

subsection \<open>PS/2 keyboard\<close>

lemma sc_azerty_keys:
  "sc_azerty ! 16 = 0x61" "sc_azerty ! 48 = 0x62" "sc_azerty ! 14 = 0x08" "sc_azerty ! 28 = 0x0A"
  by (simp_all add: sc_azerty_def bytes_of_def)

lemma vga_putchar_port_in [simp]: "port_in (vga_putchar c s) = port_in s"
  by (simp add: vga_putchar_def Let_def)

lemma keyboard_poll_ready:
  assumes "port_in s = st # ins" "st AND 0x01 \<noteq> 0"
  shows "keyboard_poll s = Some (s\<lparr>port_in := ins, port_log := port_log s @ [In 0x64 st]\<rparr>)"
  using assms by (subst keyboard_poll.simps) (simp add: inb_def)

lemma keyboard_getchar_key:
  assumes "port_in s = st # sc # rest" "st AND 0x01 \<noteq> 0" "sc AND 0x80 = 0" "sc < 128"
    "sc_azerty ! unat sc \<noteq> 0"
  shows "keyboard_getchar s =
     Some (sc_azerty ! unat sc,
           s\<lparr>port_in := rest, port_log := port_log s @ [In 0x64 st, In 0x60 sc]\<rparr>)"
  using assms
  by (subst keyboard_getchar.simps)
     (simp add: keyboard_poll_ready[OF assms(1,2)] inb_def Let_def not_le[symmetric])

lemma keyboard_readline_loop_step:
  assumes "keyboard_getchar s = Some (c, s1)"
  shows "keyboard_readline_loop max_len buf len s =
     (if c = 0x0A then Some (len, store len 0x00 buf, vga_putchar 0x0A s1)
      else if c = 0x08 then
        (if len > 0 then keyboard_readline_loop max_len buf (len - 1) (vga_putchar 0x08 s1)
         else keyboard_readline_loop max_len buf len s1)
      else if len < max_len - 1 then
        keyboard_readline_loop max_len (store len c buf) (len + 1) (vga_putchar c s1)
      else keyboard_readline_loop max_len buf len s1)"
  by (subst keyboard_readline_loop.simps) (simp add: assms)

lemma keyboard_readline_loop_edit:
  assumes "keyboard_getchar s = Some (c, s1)" "c \<noteq> 0x0A"
  shows "keyboard_readline_loop max_len buf len s =
     keyboard_readline_loop max_len
       (if c \<noteq> 0x08 \<and> len < max_len - 1 then store len c buf else buf)
       (if c = 0x08 then (if len > 0 then len - 1 else len)
        else if len < max_len - 1 then len + 1 else len)
       (if c = 0x08 then (if len > 0 then vga_putchar 0x08 s1 else s1)
        else if len < max_len - 1 then vga_putchar c s1 else s1)"
  unfolding keyboard_readline_loop_step[OF assms(1)] using assms(2) by simp

lemma keyboard_readline_loop_key:
  assumes "port_in s = 0x01 # sc # rest" "sc = 0x10 \<or> sc = 0x30 \<or> sc = 0x0E"
  shows "\<exists>buf' len' s'. keyboard_readline_loop max_len buf len s =
           keyboard_readline_loop max_len buf' len' s' \<and>
           port_in s' = rest \<and> length buf' = length buf \<and>
           (if sc = 0x0E then len' = (if len > 0 then len - 1 else len)
            else len \<le> len' \<and> len' \<le> len + 1)"
proof -
  let ?s1 = "s\<lparr>port_in := rest, port_log := port_log s @ [In 0x64 0x01, In 0x60 sc]\<rparr>"
  let ?c = "sc_azerty ! unat sc"
  have c: "?c \<noteq> 0x0A" "?c \<noteq> 0" "?c = 0x08 \<longleftrightarrow> sc = 0x0E"
    using assms(2) by (auto simp: sc_azerty_keys)
  have g: "keyboard_getchar s = Some (?c, ?s1)"
    using assms(2) c(2) by (intro keyboard_getchar_key[OF assms(1)]) auto
  show ?thesis
    unfolding keyboard_readline_loop_edit[OF g c(1)] c(3)
    by (intro exI conjI, rule refl) (simp_all add: store_def)
qed

lemma keyboard_readline_loop_enter:
  assumes "port_in s = 0x01 # 0x1C # rest"
  shows "keyboard_readline_loop max_len buf len s =
     Some (len, store len 0x00 buf,
           vga_putchar 0x0A (s\<lparr>port_in := rest,
                               port_log := port_log s @ [In 0x64 0x01, In 0x60 0x1C]\<rparr>))"
proof -
  have "keyboard_getchar s = Some (sc_azerty ! unat (0x1C :: u8),
      s\<lparr>port_in := rest, port_log := port_log s @ [In 0x64 0x01, In 0x60 0x1C]\<rparr>)"
    by (intro keyboard_getchar_key[OF assms]) (simp_all add: sc_azerty_keys)
  then show ?thesis
    by (simp add: keyboard_readline_loop_step sc_azerty_keys)
qed

lemma keyboard_readline_ab_bs3:
  assumes "port_in s = ps2_ab_bs3_enter @ rest"
  shows "\<exists>buf' s'. keyboard_readline buf max_len s = Some (0, buf', s') \<and> port_in s' = rest \<and>
           (0 < length buf \<longrightarrow> buf' ! 0 = 0)"
proof -
  have p0: "port_in s = 0x01 # 0x10 # [0x01, 0x30, 0x01, 0x0E, 0x01, 0x0E, 0x01, 0x0E, 0x01, 0x1C] @ rest"
    using assms by (simp add: ps2_ab_bs3_enter_def)
  from keyboard_readline_loop_key[OF p0, of max_len buf 0] obtain b1 n1 s1 where
    1: "keyboard_readline_loop max_len buf 0 s = keyboard_readline_loop max_len b1 n1 s1"
    and p1: "port_in s1 = 0x01 # 0x30 # [0x01, 0x0E, 0x01, 0x0E, 0x01, 0x0E, 0x01, 0x1C] @ rest"
    and l1: "length b1 = length buf" and n1: "0 \<le> n1 \<and> n1 \<le> 1"
    by auto
  from keyboard_readline_loop_key[OF p1, of max_len b1 n1] obtain b2 n2 s2 where
    2: "keyboard_readline_loop max_len b1 n1 s1 = keyboard_readline_loop max_len b2 n2 s2"
    and p2: "port_in s2 = 0x01 # 0x0E # [0x01, 0x0E, 0x01, 0x0E, 0x01, 0x1C] @ rest"
    and l2: "length b2 = length b1" and n2: "n1 \<le> n2 \<and> n2 \<le> n1 + 1"
    by auto
  from keyboard_readline_loop_key[OF p2, of max_len b2 n2] obtain b3 n3 s3 where
    3: "keyboard_readline_loop max_len b2 n2 s2 = keyboard_readline_loop max_len b3 n3 s3"
    and p3: "port_in s3 = 0x01 # 0x0E # [0x01, 0x0E, 0x01, 0x1C] @ rest"
    and l3: "length b3 = length b2" and n3: "n3 = (if n2 > 0 then n2 - 1 else n2)"
    by auto
  from keyboard_readline_loop_key[OF p3, of max_len b3 n3] obtain b4 n4 s4 where
    4: "keyboard_readline_loop max_len b3 n3 s3 = keyboard_readline_loop max_len b4 n4 s4"
    and p4: "port_in s4 = 0x01 # 0x0E # [0x01, 0x1C] @ rest"
    and l4: "length b4 = length b3" and n4: "n4 = (if n3 > 0 then n3 - 1 else n3)"
    by auto
  from keyboard_readline_loop_key[OF p4, of max_len b4 n4] obtain b5 n5 s5 where
    5: "keyboard_readline_loop max_len b4 n4 s4 = keyboard_readline_loop max_len b5 n5 s5"
    and p5: "port_in s5 = 0x01 # 0x1C # rest"
    and l5: "length b5 = length b4" and n5: "n5 = (if n4 > 0 then n4 - 1 else n4)"
    by auto
  have z: "n5 = 0"
    using n1 n2 n3 n4 n5 by (auto split: if_splits)
  have "keyboard_readline buf max_len s = keyboard_readline_loop max_len b5 n5 s5"
    unfolding keyboard_readline_def 1 2 3 4 5 ..
  also have "\<dots> = keyboard_readline_loop max_len b5 0 s5"
    by (simp only: z)
  also note keyboard_readline_loop_enter[OF p5]
  finally show ?thesis
    using l1 l2 l3 l4 l5 by (simp add: store_def)
qed

subsection \<open>UART\<close>

lemma keyboard_readline_loop_rpi3_step:
  assumes "keyboard_getchar_rpi3 u = Some (c, u1)"
  shows "keyboard_readline_loop_rpi3 max_len buf len u =
     (if c = 0x0D \<or> c = 0x0A then
        (case vga_putchar_rpi3 0x0A u1 of
           None \<Rightarrow> None
         | Some u2 \<Rightarrow> Some (len, store len 0x00 buf, u2))
      else if c = 0x08 \<or> c = 127 then
        (if len > 0 then
           do { u2 \<leftarrow> vga_putchar_rpi3 0x08 u1;
                u3 \<leftarrow> vga_putchar_rpi3 0x20 u2;
                u4 \<leftarrow> vga_putchar_rpi3 0x08 u3;
                keyboard_readline_loop_rpi3 max_len buf (len - 1) u4 }
         else keyboard_readline_loop_rpi3 max_len buf len u1)
      else if c \<ge> 32 \<and> len < max_len - 1 then
        do { u2 \<leftarrow> vga_putchar_rpi3 c u1;
             keyboard_readline_loop_rpi3 max_len (store len c buf) (len + 1) u2 }
      else keyboard_readline_loop_rpi3 max_len buf len u1)"
  by (subst keyboard_readline_loop_rpi3.simps)
     (auto simp: assms split: option.splits bind_splits)

lemma keyboard_readline_rpi3_ab_bs3:
  assumes "mmio_in u = uart_line_answers max_len @ rest"
  shows "\<exists>buf' u'. keyboard_readline_rpi3 buf max_len u = Some (0, buf', u') \<and>
           mmio_in u' = rest \<and> (0 < length buf \<longrightarrow> buf' ! 0 = 0) \<and>
           (3 \<le> max_len \<longrightarrow>
              tx_bytes (mmio_log u') =
                tx_bytes (mmio_log u)
                  @ [0x61, 0x62, 0x08, 0x20, 0x08, 0x08, 0x20, 0x08, 0x0D, 0x0A])"
proof -
  consider "3 \<le> max_len" | "max_len = 2" | "max_len \<le> 1"
    by linarith
  then show ?thesis
  proof cases
    case 1
    with assms show ?thesis
      by (simp add: keyboard_readline_rpi3_def uart_line_answers_def uart_ab_bs3_cr_def
          keyboard_readline_loop_rpi3.simps keyboard_getchar_rpi3.simps uart_tx_wait.simps
          uart_putchar_def vga_putchar_rpi3_def mmio_read_def mmio_write_def tx_bytes_append
          store_def)
  next
    case 2
    with assms show ?thesis
      by (simp add: keyboard_readline_rpi3_def uart_line_answers_def
          keyboard_readline_loop_rpi3.simps keyboard_getchar_rpi3.simps uart_tx_wait.simps
          uart_putchar_def vga_putchar_rpi3_def mmio_read_def mmio_write_def store_def)
  next
    case 3
    with assms show ?thesis
      by (simp add: keyboard_readline_rpi3_def uart_line_answers_def
          keyboard_readline_loop_rpi3.simps keyboard_getchar_rpi3.simps uart_tx_wait.simps
          uart_putchar_def vga_putchar_rpi3_def mmio_read_def mmio_write_def store_def)
  qed
qed

subsection \<open>What reading a character touches\<close>

lemma keyboard_poll_frame:
  "keyboard_poll s = Some s1 \<Longrightarrow>
     \<exists>ins log. s1 = s\<lparr>port_in := ins, port_log := log\<rparr> \<and> length ins \<le> length (port_in s)"
proof (induction "length (port_in s)" arbitrary: s rule: less_induct)
  case less
  show ?case
  proof (cases "port_in s")
    case Nil
    with less.prems show ?thesis
      by (subst (asm) keyboard_poll.simps) (simp add: inb_def)
  next
    case (Cons st ins)
    let ?t = "s\<lparr>port_in := ins, port_log := port_log s @ [In 0x64 st]\<rparr>"
    have step: "keyboard_poll s = (if st AND 0x01 = 0 then keyboard_poll ?t else Some ?t)"
      by (subst keyboard_poll.simps) (simp add: inb_def Cons)
    show ?thesis
    proof (cases "st AND 0x01 = 0")
      case True
      with step less.prems have "keyboard_poll ?t = Some s1"
        by simp
      from less.hyps[OF _ this] Cons obtain ins' log where
        "s1 = ?t\<lparr>port_in := ins', port_log := log\<rparr>" "length ins' \<le> length ins"
        by auto
      then show ?thesis
        using Cons by (intro exI[of _ ins'] exI[of _ log]) simp
    next
      case False
      with step less.prems have "s1 = ?t"
        by simp
      then show ?thesis
        using Cons by (intro exI[of _ ins] exI[of _ "port_log s @ [In 0x64 st]"]) simp
    qed
  qed
qed

lemma keyboard_getchar_frame:
  "keyboard_getchar s = Some (c, s1) \<Longrightarrow>
     \<exists>ins log. s1 = s\<lparr>port_in := ins, port_log := log\<rparr> \<and> length ins < length (port_in s)"
proof (induction "length (port_in s)" arbitrary: s rule: less_induct)
  case less
  show ?case
  proof (cases "keyboard_poll s")
    case None
    then have "keyboard_getchar s = None"
      by (subst keyboard_getchar.simps) simp
    with less.prems show ?thesis
      by simp
  next
    case (Some t)
    from keyboard_poll_frame[OF Some] obtain ins0 log0 where
      t: "t = s\<lparr>port_in := ins0, port_log := log0\<rparr>" and l0: "length ins0 \<le> length (port_in s)"
      by blast
    show ?thesis
    proof (cases "port_in t")
      case Nil
      with Some have "keyboard_getchar s = None"
        by (subst keyboard_getchar.simps) (simp add: inb_def)
      with less.prems show ?thesis
        by simp
    next
      case (Cons sc ins)
      let ?t' = "t\<lparr>port_in := ins, port_log := port_log t @ [In 0x60 sc]\<rparr>"
      have l: "length (port_in ?t') < length (port_in s)"
        using l0 t Cons by simp
      have step: "keyboard_getchar s =
          (if sc AND 0x80 \<noteq> 0 \<or> sc \<ge> 128 \<or> sc_azerty ! unat sc = 0
           then keyboard_getchar ?t' else Some (sc_azerty ! unat sc, ?t'))"
        by (subst keyboard_getchar.simps) (simp add: inb_def Some Cons Let_def)
      show ?thesis
      proof (cases "sc AND 0x80 \<noteq> 0 \<or> sc \<ge> 128 \<or> sc_azerty ! unat sc = 0")
        case True
        with step less.prems have "keyboard_getchar ?t' = Some (c, s1)"
          by simp
        from less.hyps[OF l this] obtain ins' log where
          "s1 = ?t'\<lparr>port_in := ins', port_log := log\<rparr>" "length ins' < length (port_in ?t')"
          by blast
        then show ?thesis
          using l t by (intro exI[of _ ins'] exI[of _ log]) simp
      next
        case False
        with step less.prems have "s1 = ?t'"
          by simp
        then show ?thesis
          using l t by (intro exI[of _ ins] exI[of _ "port_log t @ [In 0x60 sc]"]) simp
      qed
    qed
  qed
qed

lemma keyboard_getchar_rpi3_frame:
  "keyboard_getchar_rpi3 u = Some (c, u1) \<Longrightarrow>
     tx_bytes (mmio_log u1) = tx_bytes (mmio_log u) \<and> length (mmio_in u1) < length (mmio_in u)"
proof (induction "length (mmio_in u)" arbitrary: u rule: less_induct)
  case less
  show ?case
  proof (cases "mmio_in u")
    case Nil
    then have "keyboard_getchar_rpi3 u = None"
      by (subst keyboard_getchar_rpi3.simps) (simp add: mmio_read_def)
    with less.prems show ?thesis
      by simp
  next
    case (Cons fr ins)
    let ?t = "u\<lparr>mmio_in := ins, mmio_log := mmio_log u @ [Rd UART_FR fr]\<rparr>"
    have step: "keyboard_getchar_rpi3 u =
        (if fr AND FR_RXFE \<noteq> 0 then keyboard_getchar_rpi3 ?t
         else (case mmio_read UART_DR ?t of
                 None \<Rightarrow> None
               | Some (dr, u2) \<Rightarrow> Some (ucast (dr AND 0xFF), u2)))"
      by (subst keyboard_getchar_rpi3.simps) (simp add: mmio_read_def Cons)
    show ?thesis
    proof (cases "fr AND FR_RXFE \<noteq> 0")
      case True
      with step less.prems have "keyboard_getchar_rpi3 ?t = Some (c, u1)"
        by simp
      from less.hyps[OF _ this] Cons show ?thesis
        by (simp add: tx_bytes_append)
    next
      case False
      with step less.prems Cons show ?thesis
        by (auto simp: mmio_read_def tx_bytes_append split: list.splits)
    qed
  qed
qed

lemma keyboard_getchar_rpi3_raw:
  assumes "mmio_in u = fr # dr # rest" "fr AND FR_RXFE = 0"
  shows "keyboard_getchar_rpi3 u =
     Some (ucast (dr AND 0xFF),
           u\<lparr>mmio_in := rest, mmio_log := mmio_log u @ [Rd UART_FR fr, Rd UART_DR dr]\<rparr>)"
  using assms by (subst keyboard_getchar_rpi3.simps) (simp add: mmio_read_def)

text \<open>
  Claim C6.  On both variants the keys a, b, three backspaces and end of line make
  \<open>keyboard_readline\<close> return length 0 with an empty line in the buffer, for every
  buffer size (on the UART the echo of a buffer of at least 3 bytes is the two
  letters, two erasures and the line end).  In the loop, a backspace at length 0 only consumes the key; a
  backspace at a positive length decrements the length and erases on the display; a
  character that is neither end of line nor backspace and arrives at length
  \<open>max - 1\<close> or more only consumes the key.  Reading the key takes port or UART
  answers and leaves screen and serial output as they are.
\<close>

theorem C6_read_line_backspace:
  assumes "port_in s = ps2_ab_bs3_enter @ rest"
    and "mmio_in u = uart_line_answers m @ rest'"
    and "keyboard_getchar t = Some (c, t1)"
    and "keyboard_getchar_rpi3 v = Some (d, v1)"
  shows
    "(\<exists>buf' s'. keyboard_readline buf max_len s = Some (0, buf', s') \<and> port_in s' = rest \<and>
        (0 < length buf \<longrightarrow> buf' ! 0 = 0)) \<and>
     (\<exists>buf' u'. keyboard_readline_rpi3 buf m u = Some (0, buf', u') \<and> mmio_in u' = rest' \<and>
        (0 < length buf \<longrightarrow> buf' ! 0 = 0) \<and>
        (3 \<le> m \<longrightarrow>
           tx_bytes (mmio_log u') =
             tx_bytes (mmio_log u)
               @ [0x61, 0x62, 0x08, 0x20, 0x08, 0x08, 0x20, 0x08, 0x0D, 0x0A])) \<and>
     (c = 0x08 \<and> len \<le> 0 \<longrightarrow>
        keyboard_readline_loop k b len t = keyboard_readline_loop k b len t1) \<and>
     (c = 0x08 \<and> len > 0 \<longrightarrow>
        keyboard_readline_loop k b len t =
          keyboard_readline_loop k b (len - 1) (vga_putchar 0x08 t1)) \<and>
     (c \<noteq> 0x0A \<and> c \<noteq> 0x08 \<and> \<not> len < k - 1 \<longrightarrow>
        keyboard_readline_loop k b len t = keyboard_readline_loop k b len t1) \<and>
     (\<exists>ins log. t1 = t\<lparr>port_in := ins, port_log := log\<rparr> \<and> length ins < length (port_in t)) \<and>
     ((d = 0x08 \<or> d = 127) \<and> len \<le> 0 \<longrightarrow>
        keyboard_readline_loop_rpi3 k b len v = keyboard_readline_loop_rpi3 k b len v1) \<and>
     ((d = 0x08 \<or> d = 127) \<and> len > 0 \<longrightarrow>
        keyboard_readline_loop_rpi3 k b len v =
          do { u2 \<leftarrow> vga_putchar_rpi3 0x08 v1;
               u3 \<leftarrow> vga_putchar_rpi3 0x20 u2;
               u4 \<leftarrow> vga_putchar_rpi3 0x08 u3;
               keyboard_readline_loop_rpi3 k b (len - 1) u4 }) \<and>
     (d \<noteq> 0x0D \<and> d \<noteq> 0x0A \<and> d \<noteq> 0x08 \<and> d \<noteq> 127 \<and> \<not> len < k - 1 \<longrightarrow>
        keyboard_readline_loop_rpi3 k b len v = keyboard_readline_loop_rpi3 k b len v1) \<and>
     tx_bytes (mmio_log v1) = tx_bytes (mmio_log v) \<and>
     length (mmio_in v1) < length (mmio_in v)"
  using keyboard_readline_ab_bs3[OF assms(1), of buf max_len]
    keyboard_readline_rpi3_ab_bs3[OF assms(2), of buf]
    keyboard_getchar_frame[OF assms(3)] keyboard_getchar_rpi3_frame[OF assms(4)]
  unfolding keyboard_readline_loop_step[OF assms(3)] keyboard_readline_loop_rpi3_step[OF assms(4)]
  by simp

text \<open>
  The theorem on machines that receive exactly this line, with a buffer of 8 bytes,
  and on machines that receive one Backspace (PS/2) or one DEL (UART).
\<close>

theorem C6_read_line_backspace_witness:
  "(\<exists>buf' s'. keyboard_readline (replicate 8 0x55) 8 pc_typing = Some (0, buf', s') \<and>
      port_in s' = [] \<and> buf' ! 0 = 0) \<and>
   (\<exists>buf' u'. keyboard_readline_rpi3 (replicate 8 0x55) 8 rpi_typing = Some (0, buf', u') \<and>
      mmio_in u' = [] \<and> buf' ! 0 = 0 \<and>
      tx_bytes (mmio_log u') = [0x61, 0x62, 0x08, 0x20, 0x08, 0x08, 0x20, 0x08, 0x0D, 0x0A]) \<and>
   keyboard_readline_loop 8 (replicate 8 0x55) 0 pc_backspace =
     keyboard_readline_loop 8 (replicate 8 0x55) 0
       (pc_backspace\<lparr>port_in := [], port_log := [In 0x64 0x01, In 0x60 0x0E]\<rparr>) \<and>
   keyboard_readline_loop_rpi3 8 (replicate 8 0x55) 0 rpi_delete =
     keyboard_readline_loop_rpi3 8 (replicate 8 0x55) 0
       (rpi_delete\<lparr>mmio_in := [], mmio_log := [Rd UART_FR 0, Rd UART_DR 0x7F]\<rparr>)"
proof -
  have h1: "port_in pc_typing = ps2_ab_bs3_enter @ []"
    by (simp add: pc_typing_def)
  have h2: "mmio_in rpi_typing = uart_line_answers 8 @ []"
    by (simp add: rpi_typing_def uart_line_answers_def)
  have "keyboard_getchar pc_backspace =
      Some (sc_azerty ! unat (0x0E :: u8),
            pc_backspace\<lparr>port_in := [],
              port_log := port_log pc_backspace @ [In 0x64 0x01, In 0x60 0x0E]\<rparr>)"
    by (rule keyboard_getchar_key) (simp_all add: pc_backspace_def sc_azerty_keys)
  then have h4: "keyboard_getchar pc_backspace =
      Some (0x08, pc_backspace\<lparr>port_in := [], port_log := [In 0x64 0x01, In 0x60 0x0E]\<rparr>)"
    by (simp add: sc_azerty_keys pc_backspace_def pc_screen_def)
  have "keyboard_getchar_rpi3 rpi_delete =
      Some (ucast ((0x7F :: u32) AND 0xFF),
            rpi_delete\<lparr>mmio_in := [],
              mmio_log := mmio_log rpi_delete @ [Rd UART_FR 0, Rd UART_DR 0x7F]\<rparr>)"
    by (rule keyboard_getchar_rpi3_raw) (simp_all add: rpi_delete_def)
  then have h5: "keyboard_getchar_rpi3 rpi_delete =
      Some (127, rpi_delete\<lparr>mmio_in := [], mmio_log := [Rd UART_FR 0, Rd UART_DR 0x7F]\<rparr>)"
    by (simp add: rpi_delete_def)
  from C6_read_line_backspace[OF h1 h2 h4 h5, of "replicate 8 0x55" 8 0 8 "replicate 8 0x55"]
  show ?thesis
    by (simp add: rpi_typing_def)
qed

text \<open>
  Claim C10.  In the UART variant of \<open>keyboard_readline\<close>, a received control byte
  (below 32) other than CR, LF and BS is consumed and nothing else happens: the loop
  goes on with the same buffer and length, and nothing is sent.  A byte of at least 32
  other than DEL is stored and echoed when there is room.  \<open>keyboard_getchar\<close> itself
  returns the low 8 bits of the data register as they are.
\<close>

theorem C10_control_bytes_discarded:
  assumes "keyboard_getchar_rpi3 u = Some (c, u1)"
  shows
    "(c < 32 \<and> c \<noteq> 0x0D \<and> c \<noteq> 0x0A \<and> c \<noteq> 0x08 \<longrightarrow>
        keyboard_readline_loop_rpi3 max_len buf len u =
          keyboard_readline_loop_rpi3 max_len buf len u1) \<and>
     tx_bytes (mmio_log u1) = tx_bytes (mmio_log u) \<and>
     length (mmio_in u1) < length (mmio_in u) \<and>
     (c \<ge> 32 \<and> c \<noteq> 127 \<and> len < max_len - 1 \<longrightarrow>
        keyboard_readline_loop_rpi3 max_len buf len u =
          do { u2 \<leftarrow> vga_putchar_rpi3 c u1;
               keyboard_readline_loop_rpi3 max_len (store len c buf) (len + 1) u2 }) \<and>
     (mmio_in w = fr # dr # rest \<and> fr AND FR_RXFE = 0 \<longrightarrow>
        keyboard_getchar_rpi3 w =
          Some (ucast (dr AND 0xFF),
                w\<lparr>mmio_in := rest, mmio_log := mmio_log w @ [Rd UART_FR fr, Rd UART_DR dr]\<rparr>))"
proof -
  have "keyboard_readline_loop_rpi3 max_len buf len u =
          keyboard_readline_loop_rpi3 max_len buf len u1"
    if "c < 32" "c \<noteq> 0x0D" "c \<noteq> 0x0A" "c \<noteq> 0x08"
  proof -
    from that(1) have "c \<noteq> 127" "\<not> c \<ge> 32"
      by auto
    with that show ?thesis
      unfolding keyboard_readline_loop_rpi3_step[OF assms] by simp
  qed
  moreover have "keyboard_readline_loop_rpi3 max_len buf len u =
          do { u2 \<leftarrow> vga_putchar_rpi3 c u1;
               keyboard_readline_loop_rpi3 max_len (store len c buf) (len + 1) u2 }"
    if "c \<ge> 32" "c \<noteq> 127" "len < max_len - 1"
  proof -
    from that(1) have "c \<noteq> 0x0D" "c \<noteq> 0x0A" "c \<noteq> 0x08"
      by auto
    with that show ?thesis
      unfolding keyboard_readline_loop_rpi3_step[OF assms] by simp
  qed
  ultimately show ?thesis
    using keyboard_getchar_rpi3_frame[OF assms] keyboard_getchar_rpi3_raw[of w fr dr rest]
    by blast
qed

text \<open>The theorem on a UART that receives the byte BEL (7).\<close>

theorem C10_control_bytes_discarded_witness:
  "keyboard_getchar_rpi3 rpi_bel =
     Some (0x07, rpi_bel\<lparr>mmio_in := [], mmio_log := [Rd UART_FR 0, Rd UART_DR 0x07]\<rparr>) \<and>
   keyboard_readline_loop_rpi3 8 (replicate 8 0x55) 0 rpi_bel =
     keyboard_readline_loop_rpi3 8 (replicate 8 0x55) 0
       (rpi_bel\<lparr>mmio_in := [], mmio_log := [Rd UART_FR 0, Rd UART_DR 0x07]\<rparr>) \<and>
   tx_bytes (mmio_log (rpi_bel\<lparr>mmio_in := [], mmio_log := [Rd UART_FR 0, Rd UART_DR 0x07]\<rparr>))
     = tx_bytes (mmio_log rpi_bel)"
proof -
  have "keyboard_getchar_rpi3 rpi_bel =
      Some (ucast ((0x07 :: u32) AND 0xFF),
            rpi_bel\<lparr>mmio_in := [],
              mmio_log := mmio_log rpi_bel @ [Rd UART_FR 0, Rd UART_DR 0x07]\<rparr>)"
    by (rule keyboard_getchar_rpi3_raw) (simp_all add: rpi_bel_def)
  then have h: "keyboard_getchar_rpi3 rpi_bel =
      Some (0x07, rpi_bel\<lparr>mmio_in := [], mmio_log := [Rd UART_FR 0, Rd UART_DR 0x07]\<rparr>)"
    by (simp add: rpi_bel_def)
  from C10_control_bytes_discarded[OF h, of 8 "replicate 8 0x55" 0] h
  show ?thesis
    by simp
qed

end
